theory Spec2Isabelle
  imports Main "HOL-Library.Sublist" "HOL-Library.AList"
begin

section \<open>The CI/CD pipeline module (src/python/deployment/cicd\_pipeline.py)\<close>

text \<open>
  The module builds a pipeline from a template (\<open>PipelineTemplate.create_pipeline\<close>) and
  runs it (\<open>PipelineExecutor.execute_step\<close>, \<open>PipelineExecutor.execute_pipeline\<close>).

  Conventions of the embedding:
  \<^item> a Python \<open>dict\<close> whose iteration order matters is an association list in insertion
    order; \<open>d[k] = v\<close> is \<open>AList.update k v d\<close> (the value is replaced in place when the key
    is present, the pair is appended otherwise) and a lookup is \<open>map_of d k\<close>;
  \<^item> \<open>datetime.datetime.utcnow()\<close> reads a logical clock: a natural number, one tick per read;
  \<^item> \<open>uuid.uuid4()\<close> is a parameter \<open>uuid4\<close>: \<open>uuid4 k\<close> is the string returned by the
    \<open>k\<close>-th call made during an instantiation;
  \<^item> calls of \<open>logger\<close> change nothing the program reads and are left out.
\<close>

subsection \<open>Enumerations\<close>

datatype PipelineStage = SOURCE | BUILD | TEST | DEPLOY | VERIFY

datatype PipelineStatus = PENDING | IN_PROGRESS | SUCCEEDED | FAILED | ABORTED

text \<open>
  \<open>PipelineStep.status\<close> is a string; the class only ever stores the four literals
  \<open>"pending"\<close>, \<open>"in_progress"\<close>, \<open>"succeeded"\<close> and \<open>"failed"\<close>.
\<close>

datatype StepStatus = Pending | InProgress | Succeeded | Failed

datatype error = IndexError

subsection \<open>PipelineStep\<close>

record PipelineStep =
  s_id :: string
  s_name :: string
  s_stage :: PipelineStage
  s_command :: string
  s_dependencies :: "string list"
  s_status :: StepStatus
  s_logs :: string
  s_started_at :: "nat option"
  s_completed_at :: "nat option"

definition PipelineStep_init ::
  "string \<Rightarrow> string \<Rightarrow> PipelineStage \<Rightarrow> string \<Rightarrow> string list \<Rightarrow> PipelineStep" where
  "PipelineStep_init uuid name stage command dependencies =
     \<lparr> s_id = uuid, s_name = name, s_stage = stage, s_command = command,
       s_dependencies = dependencies, s_status = Pending, s_logs = [],
       s_started_at = None, s_completed_at = None \<rparr>"

definition step_start :: "nat \<Rightarrow> PipelineStep \<Rightarrow> PipelineStep" where
  "step_start now step = step\<lparr> s_status := InProgress, s_started_at := Some now \<rparr>"

definition step_complete :: "nat \<Rightarrow> bool \<Rightarrow> string \<Rightarrow> PipelineStep \<Rightarrow> PipelineStep" where
  "step_complete now success logs step =
     step\<lparr> s_status := (if success then Succeeded else Failed),
           s_logs := s_logs step @ logs,
           s_completed_at := Some now \<rparr>"

subsection \<open>Pipeline\<close>

record Pipeline =
  p_id :: string
  p_name :: string
  p_app_id :: string
  p_version :: string
  p_steps :: "(string \<times> PipelineStep) list"
  p_status :: PipelineStatus
  p_created_at :: nat
  p_updated_at :: nat
  p_started_at :: "nat option"
  p_completed_at :: "nat option"

definition Pipeline_init :: "string \<Rightarrow> nat \<Rightarrow> string \<Rightarrow> string \<Rightarrow> string \<Rightarrow> Pipeline" where
  "Pipeline_init uuid now name app_id version =
     \<lparr> p_id = uuid, p_name = name, p_app_id = app_id, p_version = version,
       p_steps = [], p_status = PENDING, p_created_at = now, p_updated_at = now,
       p_started_at = None, p_completed_at = None \<rparr>"

definition add_step :: "nat \<Rightarrow> PipelineStep \<Rightarrow> Pipeline \<Rightarrow> Pipeline" where
  "add_step now step pipeline =
     pipeline\<lparr> p_steps := AList.update (s_id step) step (p_steps pipeline),
               p_updated_at := now \<rparr>"

definition pipeline_start :: "nat \<Rightarrow> Pipeline \<Rightarrow> Pipeline" where
  "pipeline_start now pipeline =
     pipeline\<lparr> p_status := IN_PROGRESS, p_started_at := Some now, p_updated_at := now \<rparr>"

definition pipeline_complete :: "nat \<Rightarrow> PipelineStatus \<Rightarrow> Pipeline \<Rightarrow> Pipeline" where
  "pipeline_complete now status pipeline =
     pipeline\<lparr> p_status := status, p_completed_at := Some now, p_updated_at := now \<rparr>"

subsection \<open>PipelineTemplate\<close>

text \<open>A step template is the dictionary that \<open>add_step_template\<close> appends.\<close>

record StepTemplate =
  st_name :: string
  st_stage :: PipelineStage
  st_command_template :: string
  st_dependencies :: "string list"

record PipelineTemplate =
  t_id :: string
  t_name :: string
  t_description :: string
  t_steps :: "StepTemplate list"
  t_created_at :: nat

definition add_step_template ::
  "string \<Rightarrow> PipelineStage \<Rightarrow> string \<Rightarrow> string list \<Rightarrow> PipelineTemplate \<Rightarrow> PipelineTemplate" where
  "add_step_template name stage command_template dependencies self =
     self\<lparr> t_steps := t_steps self @
       [\<lparr> st_name = name, st_stage = stage, st_command_template = command_template,
          st_dependencies = dependencies \<rparr>] \<rparr>"

subsection \<open>Variable substitution\<close>

text \<open>
  \<open>str.replace(old, new)\<close>: every non-overlapping occurrence of \<open>old\<close>, found from the
  left, is replaced. With an empty \<open>old\<close> Python inserts \<open>new\<close> before every character and
  at the end.
\<close>

function str_replace :: "string \<Rightarrow> string \<Rightarrow> string \<Rightarrow> string" where
  "str_replace old new [] = (if old = [] then new else [])"
| "str_replace old new (c # cs) =
     (if old = [] then new @ c # str_replace old new cs
      else if prefix old (c # cs)
        then new @ str_replace old new (drop (length old) (c # cs))
        else c # str_replace old new cs)"
  by pat_completeness auto
termination
  by (relation "measure (\<lambda>(old, new, s). length s)") (auto simp: neq_Nil_conv)

text \<open>
  The loop \<open>for var_name, var_value in variables.items(): command = command.replace(...)\<close>,
  with the pattern \<open>f"${{{var_name}}}"\<close>, that is \<open>${\<close>, the name, \<open>}\<close>.
\<close>

definition placeholder :: "string \<Rightarrow> string" where
  "placeholder var_name = ''${'' @ var_name @ ''}''"

definition substitute :: "(string \<times> string) list \<Rightarrow> string \<Rightarrow> string" where
  "substitute variables command =
     fold (\<lambda>(var_name, var_value) command. str_replace (placeholder var_name) var_value command)
       variables command"

subsection \<open>PipelineTemplate.create\_pipeline\<close>

text \<open>
  \<open>variables = variables or {}\<close> keeps the caller's dictionary object unless it is \<open>None\<close>
  or empty (an empty dictionary is falsy), in which case a new dictionary is made.
  \<open>variables.update({...})\<close> then changes whichever object \<open>variables\<close> names.
\<close>

definition merge_variables :: "string \<Rightarrow> string \<Rightarrow> (string \<times> string) list \<Rightarrow> (string \<times> string) list" where
  "merge_variables app_id version variables =
     AList.update ''VERSION'' version (AList.update ''APP_ID'' app_id variables)"

definition local_variables :: "(string \<times> string) list option \<Rightarrow> (string \<times> string) list" where
  "local_variables variables = (case variables of None \<Rightarrow> [] | Some d \<Rightarrow> d)"

text \<open>What the caller's dictionary object holds after the call (\<open>None\<close>: no object was passed).\<close>

definition caller_variables_after ::
  "string \<Rightarrow> string \<Rightarrow> (string \<times> string) list option \<Rightarrow> (string \<times> string) list option" where
  "caller_variables_after app_id version variables =
     (case variables of
        None \<Rightarrow> None
      | Some d \<Rightarrow> if d = [] then Some [] else Some (merge_variables app_id version d))"

text \<open>
  First loop: one step per step template, in order. The \<open>i\<close>-th step (from 0) takes the
  uuid of call \<open>i + 1\<close> (call 0 named the pipeline) and \<open>add_step\<close> reads the clock.
\<close>

fun instantiate_steps ::
  "(nat \<Rightarrow> string) \<Rightarrow> nat \<Rightarrow> (string \<times> string) list \<Rightarrow> nat \<Rightarrow> StepTemplate list \<Rightarrow>
   Pipeline \<times> (string \<times> string) list \<Rightarrow> Pipeline \<times> (string \<times> string) list" where
  "instantiate_steps uuid4 now variables i [] (pipeline, step_id_map) = (pipeline, step_id_map)"
| "instantiate_steps uuid4 now variables i (step_template # rest) (pipeline, step_id_map) =
     (let command = substitute variables (st_command_template step_template);
          step = PipelineStep_init (uuid4 (Suc i)) (st_name step_template)
                   (st_stage step_template) command [];
          pipeline' = add_step (now + Suc i) step pipeline;
          step_id_map' = AList.update (st_name step_template) (s_id step) step_id_map
      in instantiate_steps uuid4 now variables (Suc i) rest (pipeline', step_id_map'))"

text \<open>
  Second loop: \<open>list(pipeline.steps.keys())[i]\<close> raises \<open>IndexError\<close> when the dictionary
  has fewer keys than the template has steps (two steps drew the same uuid).
\<close>

definition resolve_dependencies :: "(string \<times> string) list \<Rightarrow> string list \<Rightarrow> string list" where
  "resolve_dependencies step_id_map dep_names = List.map_filter (map_of step_id_map) dep_names"

fun set_up_dependencies ::
  "(string \<times> string) list \<Rightarrow> nat \<Rightarrow> StepTemplate list \<Rightarrow> Pipeline \<Rightarrow> error + Pipeline" where
  "set_up_dependencies step_id_map i [] pipeline = Inr pipeline"
| "set_up_dependencies step_id_map i (step_template # rest) pipeline =
     (if i < length (p_steps pipeline) then
        (let step_id = map fst (p_steps pipeline) ! i;
             deps = resolve_dependencies step_id_map (st_dependencies step_template)
         in set_up_dependencies step_id_map (Suc i) rest
              (pipeline\<lparr> p_steps :=
                 AList.map_entry step_id (\<lambda>step. step\<lparr> s_dependencies := deps \<rparr>)
                   (p_steps pipeline) \<rparr>))
      else Inl IndexError)"

definition create_pipeline ::
  "(nat \<Rightarrow> string) \<Rightarrow> nat \<Rightarrow> PipelineTemplate \<Rightarrow> string \<Rightarrow> string \<Rightarrow>
   (string \<times> string) list option \<Rightarrow> (error + Pipeline) \<times> (string \<times> string) list option" where
  "create_pipeline uuid4 now self app_id version variables =
     (let variables' = merge_variables app_id version (local_variables variables);
          pipeline = Pipeline_init (uuid4 0) now (t_name self) app_id version;
          (pipeline', step_id_map) =
             instantiate_steps uuid4 now variables' 0 (t_steps self) (pipeline, [])
      in (set_up_dependencies step_id_map 0 (t_steps self) pipeline',
          caller_variables_after app_id version variables))"

subsection \<open>PipelineExecutor\<close>

text \<open>
  The state the executor works on: its dictionary \<open>current_executions\<close> (pipeline objects
  are shared with the caller, so the entry under a pipeline's id \<^emph>\<open>is\<close> that pipeline),
  the clock, and \<open>start_calls\<close>, the history of the calls of \<open>PipelineStep.start\<close>:
  one entry per call, oldest first, holding the id of the step and the steps of its
  pipeline at that instant. The history is an observation; no operation reads it.
\<close>

record executor_state =
  current_executions :: "string \<rightharpoonup> Pipeline"
  now :: nat
  start_calls :: "(string \<times> (string \<times> PipelineStep) list) list"

text \<open>
  The source only simulates the execution of a step's command (``in a real implementation,
  this would execute the command''), inside a \<open>try\<close> whose handler marks the step failed.
  The execution is the parameter \<open>run\<close>, applied to the started step: \<open>None\<close> when it
  returns, \<open>Some e\<close> when it raises an exception whose text is \<open>e\<close>. The source as it
  stands is \<open>simulated\<close>.
\<close>

definition simulated :: "PipelineStep \<Rightarrow> string option" where
  "simulated step = None"

text \<open>The dependency check of \<open>execute_step\<close>: the first missing or unfinished dependency
  ends the call.\<close>

fun dependencies_succeeded :: "(string \<times> PipelineStep) list \<Rightarrow> string list \<Rightarrow> bool" where
  "dependencies_succeeded steps [] = True"
| "dependencies_succeeded steps (dep_id # rest) =
     (case map_of steps dep_id of
        None \<Rightarrow> False
      | Some dep_step \<Rightarrow>
          if s_status dep_step \<noteq> Succeeded then False
          else dependencies_succeeded steps rest)"

text \<open>A step object is changed in place: the entry under its key is replaced.\<close>

definition store_step :: "string \<Rightarrow> PipelineStep \<Rightarrow> Pipeline \<Rightarrow> Pipeline" where
  "store_step step_id step pipeline =
     pipeline\<lparr> p_steps := AList.map_entry step_id (\<lambda>_. step) (p_steps pipeline) \<rparr>"

definition all_complete :: "Pipeline \<Rightarrow> bool" where
  "all_complete pipeline =
     list_all (\<lambda>(k, s). s_status s = Succeeded \<or> s_status s = Failed) (p_steps pipeline)"

definition any_failed :: "Pipeline \<Rightarrow> bool" where
  "any_failed pipeline = list_ex (\<lambda>(k, s). s_status s = Failed) (p_steps pipeline)"

text \<open>
  The part of \<open>execute_step\<close> from \<open>step.start()\<close> on, at clock \<open>t\<close>: the new pipeline,
  the new clock and the value returned.
\<close>

definition run_step ::
  "(PipelineStep \<Rightarrow> string option) \<Rightarrow> nat \<Rightarrow> string \<Rightarrow> PipelineStep \<Rightarrow> Pipeline \<Rightarrow>
   Pipeline \<times> nat \<times> bool" where
  "run_step run t step_id step pipeline =
     (let started = step_start t step in
      case run started of
        None \<Rightarrow>
          (let pipeline1 = store_step step_id
                 (step_complete (t + 1) True ''Step executed successfully'' started) pipeline
           in if all_complete pipeline1
              then (pipeline_complete (t + 2)
                      (if any_failed pipeline1 then FAILED else SUCCEEDED) pipeline1, t + 3, True)
              else (pipeline1, t + 2, True))
      | Some e \<Rightarrow>
          (let pipeline1 = store_step step_id
                 (step_complete (t + 1) False (''Error: '' @ e) started) pipeline
           in (pipeline_complete (t + 2) FAILED pipeline1, t + 3, False)))"

definition execute_step ::
  "(PipelineStep \<Rightarrow> string option) \<Rightarrow> executor_state \<Rightarrow> string \<Rightarrow> string \<Rightarrow>
   executor_state \<times> bool" where
  "execute_step run st pipeline_id step_id =
     (case current_executions st pipeline_id of
        None \<Rightarrow> (st, False)
      | Some pipeline \<Rightarrow>
          (case map_of (p_steps pipeline) step_id of
             None \<Rightarrow> (st, False)
           | Some step \<Rightarrow>
               if \<not> dependencies_succeeded (p_steps pipeline) (s_dependencies step)
               then (st, False)
               else
                 (case run_step run (now st) step_id step pipeline of
                    (pipeline', t', result) \<Rightarrow>
                      (st\<lparr> current_executions := (current_executions st)(pipeline_id \<mapsto> pipeline'),
                           now := t',
                           start_calls := start_calls st @ [(step_id, p_steps pipeline)] \<rparr>,
                       result))))"

text \<open>The first loop of \<open>execute_pipeline\<close>: every step without dependencies is executed.\<close>

definition execute_if_independent ::
  "(PipelineStep \<Rightarrow> string option) \<Rightarrow> string \<Rightarrow> string \<Rightarrow> executor_state \<Rightarrow> executor_state" where
  "execute_if_independent run pipeline_id step_id st =
     (case current_executions st pipeline_id of
        None \<Rightarrow> st
      | Some pipeline \<Rightarrow>
          (case map_of (p_steps pipeline) step_id of
             None \<Rightarrow> st
           | Some step \<Rightarrow>
               if s_dependencies step = []
               then fst (execute_step run st pipeline_id step_id)
               else st))"

text \<open>
  The test of the \<open>while\<close> loop's body: \<open>all(... for dep_id in step.dependencies
  if dep_id in pipeline.steps)\<close>; a dependency id that names no step is skipped.
\<close>

definition deps_complete :: "(string \<times> PipelineStep) list \<Rightarrow> string list \<Rightarrow> bool" where
  "deps_complete steps deps =
     list_all (\<lambda>dep_id. case map_of steps dep_id of
                          None \<Rightarrow> True
                        | Some dep_step \<Rightarrow> s_status dep_step = Succeeded) deps"

definition execute_if_ready ::
  "(PipelineStep \<Rightarrow> string option) \<Rightarrow> string \<Rightarrow> string \<Rightarrow> executor_state \<times> bool \<Rightarrow>
   executor_state \<times> bool" where
  "execute_if_ready run pipeline_id step_id acc =
     (case acc of (st, progress_made) \<Rightarrow>
        (case current_executions st pipeline_id of
           None \<Rightarrow> (st, progress_made)
         | Some pipeline \<Rightarrow>
             (case map_of (p_steps pipeline) step_id of
                None \<Rightarrow> (st, progress_made)
              | Some step \<Rightarrow>
                  if s_status step = Pending \<and>
                     deps_complete (p_steps pipeline) (s_dependencies step)
                  then (fst (execute_step run st pipeline_id step_id), True)
                  else (st, progress_made))))"

text \<open>The keys of \<open>pipeline.steps\<close>, in iteration order.\<close>

definition step_ids :: "executor_state \<Rightarrow> string \<Rightarrow> string list" where
  "step_ids st pipeline_id =
     (case current_executions st pipeline_id of
        None \<Rightarrow> []
      | Some pipeline \<Rightarrow> map fst (p_steps pipeline))"

definition pipeline_status :: "executor_state \<Rightarrow> string \<Rightarrow> PipelineStatus option" where
  "pipeline_status st pipeline_id = map_option p_status (current_executions st pipeline_id)"

text \<open>One pass of the \<open>for\<close> loop inside the \<open>while\<close> loop, from \<open>progress_made = False\<close>.\<close>

definition scan ::
  "(PipelineStep \<Rightarrow> string option) \<Rightarrow> string \<Rightarrow> executor_state \<Rightarrow> executor_state \<times> bool" where
  "scan run pipeline_id st =
     fold (execute_if_ready run pipeline_id) (step_ids st pipeline_id) (st, False)"

text \<open>
  The \<open>while\<close> loop. Nothing bounds the number of passes, so the loop is a partial
  function: \<open>None\<close> is a loop that never exits.
\<close>

partial_function (option) execution_loop ::
  "(PipelineStep \<Rightarrow> string option) \<Rightarrow> string \<Rightarrow> bool \<Rightarrow> executor_state \<Rightarrow> executor_state option" where
  "execution_loop run pipeline_id progress_made st =
     (if progress_made \<and> pipeline_status st pipeline_id = Some IN_PROGRESS
      then (case scan run pipeline_id st of
              (st', progress_made') \<Rightarrow> execution_loop run pipeline_id progress_made' st')
      else Some st)"

declare execution_loop.simps [code]

definition execute_pipeline ::
  "(PipelineStep \<Rightarrow> string option) \<Rightarrow> executor_state \<Rightarrow> Pipeline \<Rightarrow>
   (executor_state \<times> bool) option" where
  "execute_pipeline run st pipeline =
     (let pipeline_id = p_id pipeline;
          st1 = st\<lparr> current_executions :=
                      (current_executions st)(pipeline_id \<mapsto> pipeline_start (now st) pipeline),
                    now := Suc (now st) \<rparr>;
          st2 = fold (execute_if_independent run pipeline_id) (step_ids st1 pipeline_id) st1
      in case execution_loop run pipeline_id True st2 of
           None \<Rightarrow> None
         | Some st3 \<Rightarrow> Some (st3, pipeline_status st3 pipeline_id = Some SUCCEEDED))"

subsection \<open>Substitution as the specification words it\<close>

text \<open>
  A command template seen as a sequence of pieces: literal text and placeholders \<open>${NAME}\<close>.
  \<open>render\<close> is the template's text. \<open>expand\<close> follows the specification's words: every
  placeholder whose name is bound is replaced by the bound value, every other placeholder is
  left verbatim, and the literal text is kept.
\<close>

datatype piece = Text string | Var string

fun render_piece :: "piece \<Rightarrow> string" where
  "render_piece (Text s) = s"
| "render_piece (Var n) = placeholder n"

definition render :: "piece list \<Rightarrow> string" where
  "render ps = concat (map render_piece ps)"

fun expand_piece :: "(string \<rightharpoonup> string) \<Rightarrow> piece \<Rightarrow> string" where
  "expand_piece binding (Text s) = s"
| "expand_piece binding (Var n) = (case binding n of Some v \<Rightarrow> v | None \<Rightarrow> placeholder n)"

definition expand :: "(string \<rightharpoonup> string) \<Rightarrow> piece list \<Rightarrow> string" where
  "expand binding ps = concat (map (expand_piece binding) ps)"

text \<open>A piece is unambiguous when its literal text has no \<open>$\<close> and its name has neither
  \<open>$\<close> nor \<open>}\<close>.\<close>

fun unambiguous :: "piece \<Rightarrow> bool" where
  "unambiguous (Text s) = (CHR ''$'' \<notin> set s)"
| "unambiguous (Var n) = (CHR ''$'' \<notin> set n \<and> CHR ''}'' \<notin> set n)"

text \<open>The commands of the steps of a created pipeline, in order (\<open>None\<close>: the call raised).\<close>

definition commands :: "error + Pipeline \<Rightarrow> string list option" where
  "commands r = (case r of Inl e \<Rightarrow> None | Inr p \<Rightarrow> Some (map (\<lambda>(k, s). s_command s) (p_steps p)))"

subsection \<open>Notions used to state the properties\<close>

text \<open>A recorded call of \<open>start\<close> is in order when the step exists and each of its
  dependency ids names a step of the pipeline whose status is \<open>succeeded\<close> at that instant.\<close>

definition start_ok :: "string \<times> (string \<times> PipelineStep) list \<Rightarrow> bool" where
  "start_ok call =
     (case call of (step_id, steps) \<Rightarrow>
        (case map_of steps step_id of
           None \<Rightarrow> False
         | Some step \<Rightarrow>
             list_all (\<lambda>dep_id. case map_of steps dep_id of
                                  None \<Rightarrow> False
                                | Some dep_step \<Rightarrow> s_status dep_step = Succeeded)
               (s_dependencies step)))"

text \<open>The ready set as the \<open>while\<close> loop computes it: the pending steps that pass
  \<open>deps_complete\<close>.\<close>

definition ready :: "Pipeline \<Rightarrow> (string \<times> PipelineStep) list" where
  "ready pipeline =
     filter (\<lambda>(k, s). s_status s = Pending \<and> deps_complete (p_steps pipeline) (s_dependencies s))
       (p_steps pipeline)"

text \<open>The dependency graph of a pipeline: an edge from each dependency id to the step
  that lists it.\<close>

definition dependency_graph :: "Pipeline \<Rightarrow> (string \<times> string) set" where
  "dependency_graph pipeline =
     {(dep_id, k). \<exists>s. (k, s) \<in> set (p_steps pipeline) \<and> dep_id \<in> set (s_dependencies s)}"


text \<open>What a caller sees after \<open>execute_pipeline\<close>: the value returned, the pipeline's
  status and \<open>completed_at\<close>, and the status and \<open>started_at\<close> of every step.
  \<open>None\<close> is a call that never returns.\<close>

definition report ::
  "(PipelineStep \<Rightarrow> string option) \<Rightarrow> executor_state \<Rightarrow> Pipeline \<Rightarrow>
   (bool \<times> PipelineStatus \<times> nat option \<times> (string \<times> StepStatus \<times> nat option) list) option" where
  "report run st pipeline =
     (case execute_pipeline run st pipeline of
        None \<Rightarrow> None
      | Some (st', result) \<Rightarrow>
          (case current_executions st' (p_id pipeline) of
             None \<Rightarrow> None
           | Some p' \<Rightarrow>
               Some (result, p_status p', p_completed_at p',
                     map (\<lambda>(k, s). (k, s_status s, s_started_at s)) (p_steps p'))))"

text \<open>An execution that raises on the step with the given id and returns on every other step.\<close>

definition failing :: "string \<Rightarrow> string \<Rightarrow> PipelineStep \<Rightarrow> string option" where
  "failing step_id e step = (if s_id step = step_id then Some e else None)"

text \<open>The ids drawn for the steps of a template with \<open>n\<close> steps: calls 1 to \<open>n\<close> of
  \<open>uuid4\<close>. \<open>step_id_of\<close> gives, for a step name, the id of the last step made from a step
  template of that name, \<open>None\<close> when the template has no step of that name.\<close>

definition step_uuids :: "(nat \<Rightarrow> string) \<Rightarrow> nat \<Rightarrow> string list" where
  "step_uuids uuid4 n = map (\<lambda>j. uuid4 (Suc j)) [0..<n]"

definition step_id_of :: "(nat \<Rightarrow> string) \<Rightarrow> StepTemplate list \<Rightarrow> string \<Rightarrow> string option" where
  "step_id_of uuid4 ts = map_of (rev (zip (map st_name ts) (step_uuids uuid4 (length ts))))"

subsection \<open>Auxiliary notions of the proofs\<close>

text \<open>The invariant behind the terminal status: once every step is complete, the status and
  \<open>completed_at\<close> are those that the last completion recorded, at clock \<open>t - 1\<close>.\<close>

definition completion_recorded :: "Pipeline \<Rightarrow> nat \<Rightarrow> bool" where
  "completion_recorded q t \<longleftrightarrow>
     (all_complete q \<longrightarrow>
        p_status q = (if any_failed q then FAILED else SUCCEEDED) \<and>
        (\<exists>u. p_completed_at q = Some u \<and> Suc u = t))"

text \<open>What a run never changes in a pipeline: the keys of its steps, in order, with the
  dependencies of each.\<close>

definition shape :: "Pipeline \<Rightarrow> (string \<times> string list) list" where
  "shape q = map (\<lambda>(k, s). (k, s_dependencies s)) (p_steps q)"

text \<open>The measure of the \<open>while\<close> loop: the number of pending steps.\<close>

definition pending_count :: "Pipeline \<Rightarrow> nat" where
  "pending_count q = length (filter (\<lambda>(k, s). s_status s = Pending) (p_steps q))"

text \<open>The test that the loop's body makes for the step under a key.\<close>

definition ready_key :: "Pipeline \<Rightarrow> string \<Rightarrow> bool" where
  "ready_key q k =
     (case map_of (p_steps q) k of
        None \<Rightarrow> False
      | Some step \<Rightarrow> s_status step = Pending \<and> deps_complete (p_steps q) (s_dependencies step))"

text \<open>The invariant of a run in which no execution raises: every step is pending or
  succeeded, and the pipeline is in progress until all its steps are complete.\<close>

definition progressing :: "Pipeline \<Rightarrow> bool" where
  "progressing q \<longleftrightarrow>
     (\<forall>(k, s) \<in> set (p_steps q). s_status s = Pending \<or> s_status s = Succeeded) \<and>
     (p_status q = IN_PROGRESS \<or> all_complete q)"

text \<open>Every dependency id names a step of the pipeline.\<close>

definition closed :: "Pipeline \<Rightarrow> bool" where
  "closed q \<longleftrightarrow> (\<forall>(k, s) \<in> set (p_steps q). set (s_dependencies s) \<subseteq> fst ` set (p_steps q))"

text \<open>The steps that the first loop of \<open>create_pipeline\<close> adds for the step templates
  \<open>ts\<close>, numbered from \<open>i\<close>, and the steps of the pipeline that \<open>create_pipeline\<close> returns
  when the ids drawn are distinct.\<close>

definition new_steps ::
  "(nat \<Rightarrow> string) \<Rightarrow> (string \<times> string) list \<Rightarrow> nat \<Rightarrow> StepTemplate list \<Rightarrow>
   (string \<times> PipelineStep) list" where
  "new_steps uuid4 vars i ts =
     map (\<lambda>(j, st). (uuid4 (Suc j),
            PipelineStep_init (uuid4 (Suc j)) (st_name st) (st_stage st)
              (substitute vars (st_command_template st)) []))
       (zip [i..<i + length ts] ts)"

definition created_steps ::
  "(nat \<Rightarrow> string) \<Rightarrow> (string \<times> string) list \<Rightarrow> StepTemplate list \<Rightarrow>
   (string \<times> PipelineStep) list" where
  "created_steps uuid4 vars ts =
     map (\<lambda>(j, st). (uuid4 (Suc j),
            PipelineStep_init (uuid4 (Suc j)) (st_name st) (st_stage st)
              (substitute vars (st_command_template st))
              (List.map_filter (step_id_of uuid4 ts) (st_dependencies st))))
       (zip [0..<length ts] ts)"

text \<open>The pieces of a template after the replacement of one variable.\<close>

definition bind :: "string \<Rightarrow> string \<Rightarrow> piece list \<Rightarrow> piece list" where
  "bind k v ps = map (\<lambda>p. case p of Text s \<Rightarrow> Text s | Var n \<Rightarrow> if n = k then Text v else Var n) ps"

subsection \<open>Example inputs\<close>

text \<open>The diamond: \<open>A\<close>; \<open>B\<close> and \<open>C\<close> after \<open>A\<close>; \<open>D\<close> after \<open>B\<close> and \<open>C\<close>.\<close>

definition diamond_steps :: "string \<Rightarrow> string \<Rightarrow> string \<Rightarrow> string \<Rightarrow> (string \<times> PipelineStep) list" where
  "diamond_steps a b c d =
     [(a, PipelineStep_init a ''A'' SOURCE ''run A'' []),
      (b, PipelineStep_init b ''B'' BUILD ''run B'' [a]),
      (c, PipelineStep_init c ''C'' TEST ''run C'' [a]),
      (d, PipelineStep_init d ''D'' DEPLOY ''run D'' [b, c])]"

definition example_diamond :: Pipeline where
  "example_diamond =
     (Pipeline_init ''p'' 0 ''diamond'' ''app-1'' ''2.0'')
       \<lparr> p_steps := diamond_steps ''a'' ''b'' ''c'' ''d'' \<rparr>"

text \<open>An executor that has run nothing yet.\<close>

definition idle :: executor_state where
  "idle = \<lparr> current_executions = Map.empty, now = 1, start_calls = [] \<rparr>"

text \<open>A cycle of two steps; two independent steps and a third that depends on the first;
  a step whose only dependency id names no step.\<close>

definition example_cycle :: Pipeline where
  "example_cycle =
     (Pipeline_init ''q'' 0 ''cycle'' ''app-1'' ''2.0'')
       \<lparr> p_steps := [(''x'', PipelineStep_init ''x'' ''X'' BUILD ''run X'' [''y'']),
                     (''y'', PipelineStep_init ''y'' ''Y'' TEST ''run Y'' [''x''])] \<rparr>"

definition example_fork :: Pipeline where
  "example_fork =
     (Pipeline_init ''f'' 0 ''fork'' ''app-1'' ''2.0'')
       \<lparr> p_steps := [(''a'', PipelineStep_init ''a'' ''A'' SOURCE ''run A'' []),
                     (''b'', PipelineStep_init ''b'' ''B'' BUILD ''run B'' []),
                     (''x'', PipelineStep_init ''x'' ''X'' TEST ''run X'' [''a''])] \<rparr>"

definition example_dangling :: Pipeline where
  "example_dangling =
     (Pipeline_init ''g'' 0 ''dangling'' ''app-1'' ''2.0'')
       \<lparr> p_steps := [(''a'', PipelineStep_init ''a'' ''A'' BUILD ''run A'' [''ghost''])] \<rparr>"

text \<open>Three steps in a chain, the middle one already failed when the pipeline is handed to the
  executor.\<close>

definition example_blocked :: Pipeline where
  "example_blocked =
     (Pipeline_init ''h'' 0 ''blocked'' ''app-1'' ''2.0'')
       \<lparr> p_steps := [(''a'', PipelineStep_init ''a'' ''A'' SOURCE ''run A'' []),
                     (''b'', (PipelineStep_init ''b'' ''B'' BUILD ''run B'' [''a''])
                               \<lparr> s_status := Failed \<rparr>),
                     (''c'', PipelineStep_init ''c'' ''C'' TEST ''run C'' [''b''])] \<rparr>"

text \<open>A source of ids, and four templates: the one of the substitution example, one whose
  command is \<open>run ${ENV}\<close>, one whose step \<open>X\<close> names the undeclared \<open>Y\<close>, and one
  whose command has the placeholder \<open>${APP_ID}\<close> between braces.\<close>

definition example_uuid4 :: "nat \<Rightarrow> string" where
  "example_uuid4 k = (if k = 0 then ''uuid-0'' else if k = 1 then ''uuid-1''
                      else if k = 2 then ''uuid-2'' else ''uuid-'' @ replicate k CHR ''x'')"

definition example_template :: PipelineTemplate where
  "example_template =
     add_step_template ''Deploy'' DEPLOY ''deploy ${APP_ID} ${VERSION} ${ENV}'' []
       \<lparr> t_id = ''t-1'', t_name = ''Deploy only'', t_description = ''one step'',
         t_steps = [], t_created_at = 0 \<rparr>"

definition chain_template :: PipelineTemplate where
  "chain_template =
     add_step_template ''Run'' DEPLOY ''run ${ENV}'' []
       \<lparr> t_id = ''t-2'', t_name = ''Run only'', t_description = ''one step'',
         t_steps = [], t_created_at = 0 \<rparr>"

definition dangling_template :: PipelineTemplate where
  "dangling_template =
     add_step_template ''Z'' TEST ''run Z'' []
       (add_step_template ''X'' BUILD ''run X'' [''Y'', ''Z'']
          \<lparr> t_id = ''t-3'', t_name = ''Dangling'', t_description = ''X names the undeclared Y'',
            t_steps = [], t_created_at = 0 \<rparr>)"



section \<open>Properties of the executor\<close>

subsection \<open>Invariants carried through a run\<close>

text \<open>A property of the executor's state that every call of \<open>execute_step\<close> preserves is
  preserved by both \<open>for\<close> loops, by a pass, by the \<open>while\<close> loop when it exits and by
  \<open>execute_pipeline\<close> when it returns.\<close>

lemma map_entry_keys: "map fst (AList.map_entry k f al) = map fst al"
  by (induct al) auto

lemma map_entry_member:
  "map_of al k = Some v \<Longrightarrow> (k, f v) \<in> set (AList.map_entry k f al)"
  by (induct al) (auto split: if_splits)

lemma execute_step_cases:
  obtains (skip) "execute_step run st pid sid = (st, False)"
  | (exec) p step where "current_executions st pid = Some p"
      "map_of (p_steps p) sid = Some step"
      "dependencies_succeeded (p_steps p) (s_dependencies step)"
      "execute_step run st pid sid =
         (case run_step run (now st) sid step p of
            (p', t', r) \<Rightarrow>
              (st\<lparr> current_executions := (current_executions st)(pid \<mapsto> p'), now := t',
                   start_calls := start_calls st @ [(sid, p_steps p)] \<rparr>, r))"
proof (cases "current_executions st pid")
  case None
  then show ?thesis using skip by (simp add: execute_step_def)
next
  case (Some p)
  show ?thesis
  proof (cases "map_of (p_steps p) sid")
    case None
    with Some show ?thesis using skip by (simp add: execute_step_def)
  next
    case (Some step)
    note st = this
    show ?thesis
    proof (cases "dependencies_succeeded (p_steps p) (s_dependencies step)")
      case True
      with \<open>current_executions st pid = Some p\<close> st show ?thesis
        by (intro exec [of p step]) (simp_all add: execute_step_def)
    next
      case False
      with \<open>current_executions st pid = Some p\<close> st show ?thesis
        using skip by (simp add: execute_step_def)
    qed
  qed
qed

lemma fold_invariant:
  assumes "\<And>x s. I s \<Longrightarrow> I (f x s)" and "I s"
  shows "I (fold f xs s)"
  using assms(2) by (induction xs arbitrary: s) (auto intro: assms(1))

lemma execute_if_independent_invariant:
  assumes "\<And>st sid. I st \<Longrightarrow> I (fst (execute_step run st pid sid))" and "I st"
  shows "I (execute_if_independent run pid sid st)"
  using assms unfolding execute_if_independent_def by (auto split: option.splits)

lemma execute_if_ready_invariant:
  assumes "\<And>st sid. I st \<Longrightarrow> I (fst (execute_step run st pid sid))" and "I (fst acc)"
  shows "I (fst (execute_if_ready run pid sid acc))"
  using assms unfolding execute_if_ready_def by (auto split: option.splits prod.splits)

lemma scan_invariant:
  assumes "\<And>st sid. I st \<Longrightarrow> I (fst (execute_step run st pid sid))" and "I st"
  shows "I (fst (scan run pid st))"
  unfolding scan_def
  by (rule fold_invariant [where I = "\<lambda>acc. I (fst acc)"])
     (auto intro: execute_if_ready_invariant assms)

lemma execution_loop_invariant:
  assumes step: "\<And>st sid. I st \<Longrightarrow> I (fst (execute_step run st pid sid))"
    and loop: "execution_loop run pid pm st = Some st'" and init: "I st"
  shows "I st'"
proof -
  have "run = run \<longrightarrow> pid = pid \<longrightarrow> I st \<longrightarrow> I st'"
  proof (rule execution_loop.raw_induct
      [where P = "\<lambda>run' pid' pm st st'. run' = run \<longrightarrow> pid' = pid \<longrightarrow> I st \<longrightarrow> I st'", OF _ loop])
    fix f run' pid' pm st st'
    assume IH: "\<And>run' pid' pm st st'. f run' pid' pm st = Some st' \<Longrightarrow>
                  run' = run \<longrightarrow> pid' = pid \<longrightarrow> I st \<longrightarrow> I st'"
      and eq: "(if pm \<and> pipeline_status st pid' = Some IN_PROGRESS
                then case scan run' pid' st of (st1, pm1) \<Rightarrow> f run' pid' pm1 st1
                else Some st) = Some st'"
    show "run' = run \<longrightarrow> pid' = pid \<longrightarrow> I st \<longrightarrow> I st'"
    proof (intro impI)
      assume r: "run' = run" and p: "pid' = pid" and i: "I st"
      show "I st'"
      proof (cases "pm \<and> pipeline_status st pid' = Some IN_PROGRESS")
        case True
        obtain st1 pm1 where sc: "scan run pid st = (st1, pm1)" by (cases "scan run pid st")
        from scan_invariant [of I run pid st, OF step] i sc have "I st1" by simp
        moreover from eq True sc r p have "f run' pid' pm1 st1 = Some st'" by simp
        ultimately show ?thesis using IH r p by blast
      next
        case False
        with eq have "st' = st" by (auto split: if_splits)
        with i show ?thesis by simp
      qed
    qed
  qed
  with init show ?thesis by blast
qed

lemma execute_pipeline_invariant:
  assumes step: "\<And>st sid. I st \<Longrightarrow> I (fst (execute_step run st (p_id p) sid))"
    and run: "execute_pipeline run st p = Some (st', r)"
    and init: "I (st\<lparr> current_executions :=
                      (current_executions st)(p_id p \<mapsto> pipeline_start (now st) p),
                    now := Suc (now st) \<rparr>)"
  shows "I st'"
proof -
  let ?st1 = "st\<lparr> current_executions :=
                      (current_executions st)(p_id p \<mapsto> pipeline_start (now st) p),
                    now := Suc (now st) \<rparr>"
  let ?st2 = "fold (execute_if_independent run (p_id p)) (step_ids ?st1 (p_id p)) ?st1"
  have "I ?st2"
    by (rule fold_invariant) (auto intro: execute_if_independent_invariant step init)
  moreover from run have "execution_loop run (p_id p) True ?st2 = Some st'"
    unfolding execute_pipeline_def by (auto simp: Let_def split: option.splits)
  ultimately show ?thesis using execution_loop_invariant [where I = I and run = run and pid = "p_id p"] step by blast
qed


subsection \<open>Calls of start\<close>

lemma dependencies_succeeded_iff:
  "dependencies_succeeded steps deps \<longleftrightarrow>
     list_all (\<lambda>dep_id. case map_of steps dep_id of
                          None \<Rightarrow> False
                        | Some dep_step \<Rightarrow> s_status dep_step = Succeeded) deps"
  by (induction deps) (auto split: option.splits)

lemma execute_step_start_calls:
  "\<exists>calls. start_calls (fst (execute_step run st pid sid)) = start_calls st @ calls
      \<and> list_all start_ok calls"
proof (cases rule: execute_step_cases [of run st pid sid])
  case skip
  then show ?thesis by simp
next
  case (exec p step)
  obtain p' t' r where rs: "run_step run (now st) sid step p = (p', t', r)"
    by (cases "run_step run (now st) sid step p")
  have "start_ok (sid, p_steps p)"
    using exec(2,3) by (simp add: start_ok_def dependencies_succeeded_iff)
  with exec(4) rs show ?thesis by simp
qed

text \<open>
  Claim C1. In every run of \<open>execute_pipeline\<close>, \<open>start\<close> is only called on a step at an
  instant when each id in the step's dependencies names a step of the pipeline whose status is
  \<open>succeeded\<close>: every call of \<open>start\<close> made during the run is in order. The calls are those
  of \<open>execute_step\<close>, which checks the dependencies first.
\<close>
theorem start_only_after_dependencies:
  assumes "execute_pipeline run st p = Some (st', r)"
  shows "\<exists>calls. start_calls st' = start_calls st @ calls \<and> list_all start_ok calls"
proof (rule execute_pipeline_invariant
    [where I = "\<lambda>s. \<exists>calls. start_calls s = start_calls st @ calls \<and> list_all start_ok calls",
      OF _ assms])
  fix s :: executor_state and sid
  assume "\<exists>calls. start_calls s = start_calls st @ calls \<and> list_all start_ok calls"
  then obtain c1 where c1: "start_calls s = start_calls st @ c1" "list_all start_ok c1" by blast
  from execute_step_start_calls [of run s "p_id p" sid]
  obtain c2 where c2: "start_calls (fst (execute_step run s (p_id p) sid)) = start_calls s @ c2"
    "list_all start_ok c2" by blast
  from c1 c2 have "start_calls (fst (execute_step run s (p_id p) sid)) = start_calls st @ (c1 @ c2)
     \<and> list_all start_ok (c1 @ c2)" by simp
  then show "\<exists>calls. start_calls (fst (execute_step run s (p_id p) sid)) = start_calls st @ calls
     \<and> list_all start_ok calls" by blast
next
  show "\<exists>calls. start_calls (st\<lparr> current_executions :=
                      (current_executions st)(p_id p \<mapsto> pipeline_start (now st) p),
                    now := Suc (now st) \<rparr>) = start_calls st @ calls \<and> list_all start_ok calls"
    by simp
qed

subsection \<open>What the completion of a step records\<close>

lemma all_complete_pipeline_complete [simp]:
  "all_complete (pipeline_complete t s q) = all_complete q"
  by (simp add: all_complete_def pipeline_complete_def)

lemma any_failed_pipeline_complete [simp]:
  "any_failed (pipeline_complete t s q) = any_failed q"
  by (simp add: any_failed_def pipeline_complete_def)

lemma pipeline_complete_fields [simp]:
  "p_status (pipeline_complete t s q) = s"
  "p_completed_at (pipeline_complete t s q) = Some t"
  "p_steps (pipeline_complete t s q) = p_steps q"
  "p_id (pipeline_complete t s q) = p_id q"
  by (simp_all add: pipeline_complete_def)

lemma any_failed_store_failed:
  assumes "map_of (p_steps q) sid = Some step" and "s_status step' = Failed"
  shows "any_failed (store_step sid step' q)"
proof -
  from map_entry_member [OF assms(1), of "\<lambda>_. step'"]
  have "(sid, step') \<in> set (p_steps (store_step sid step' q))" by (simp add: store_step_def)
  with assms(2) show ?thesis unfolding any_failed_def list_ex_iff by force
qed

lemma run_step_completion:
  assumes "run_step run t sid step q = (q', t', r)" and "map_of (p_steps q) sid = Some step"
  shows "completion_recorded q' t'"
proof (cases "run (step_start t step)")
  case None
  with assms(1) show ?thesis
    by (auto simp: run_step_def Let_def completion_recorded_def split: if_splits)
next
  case (Some e)
  let ?q1 = "store_step sid (step_complete (t + 1) False (''Error: '' @ e) (step_start t step)) q"
  have "any_failed ?q1"
    by (rule any_failed_store_failed [OF assms(2)]) (simp add: step_complete_def)
  with Some assms(1) show ?thesis
    by (auto simp: run_step_def Let_def completion_recorded_def)
qed

lemma execute_step_completion:
  assumes "\<exists>q. current_executions st pid = Some q \<and> completion_recorded q (now st)"
  shows "\<exists>q. current_executions (fst (execute_step run st pid sid)) pid = Some q \<and>
            completion_recorded q (now (fst (execute_step run st pid sid)))"
proof (cases rule: execute_step_cases [of run st pid sid])
  case skip
  with assms show ?thesis by simp
next
  case (exec q step)
  obtain q' t' r where rs: "run_step run (now st) sid step q = (q', t', r)"
    by (cases "run_step run (now st) sid step q")
  from run_step_completion [OF rs exec(2)] exec(4) rs show ?thesis by simp
qed


lemmas exec_defs = execute_pipeline_def Pipeline_init_def PipelineStep_init_def pipeline_start_def step_ids_def
     execute_if_independent_def execute_step_def run_step_def step_start_def step_complete_def store_step_def all_complete_def any_failed_def pipeline_complete_def
     scan_def execute_if_ready_def deps_complete_def pipeline_status_def simulated_def

theorem start_only_after_dependencies_witness:
  "\<exists>st' r calls. execute_pipeline simulated idle example_diamond = Some (st', r) \<and>
     start_calls st' = start_calls idle @ calls \<and> list_all start_ok calls"
proof -
  have "\<exists>st'. execute_pipeline simulated idle example_diamond = Some (st', True)"
    by (simp add: idle_def example_diamond_def diamond_steps_def exec_defs execution_loop.simps)
  then obtain st' where run: "execute_pipeline simulated idle example_diamond = Some (st', True)"
    by blast
  from start_only_after_dependencies [OF run] run show ?thesis by blast
qed


subsection \<open>How the execution of a step changes the stored pipeline\<close>

lemma map_entry_shape:
  "map_of al k = Some v \<Longrightarrow> g (f v) = g v \<Longrightarrow>
   map (\<lambda>(k, s). (k, g s)) (AList.map_entry k f al) = map (\<lambda>(k, s). (k, g s)) al"
  by (induct al) (auto split: if_splits)

lemma map_entry_count:
  "map_of al k = Some v \<Longrightarrow> P v \<Longrightarrow> \<not> P (f v) \<Longrightarrow>
   Suc (length (filter (\<lambda>(k, s). P s) (AList.map_entry k f al))) =
     length (filter (\<lambda>(k, s). P s) al)"
  by (induct al) (auto split: if_splits)

lemma map_entry_set:
  "(k', v') \<in> set (AList.map_entry k f al) \<Longrightarrow>
   (k', v') \<in> set al \<or> (k' = k \<and> (\<exists>v. (k, v) \<in> set al \<and> v' = f v))"
  by (induct al) (auto split: if_splits)

lemma run_step_simulated:
  "run_step simulated t sid step q =
     (let q1 = store_step sid
                 (step_complete (t + 1) True ''Step executed successfully'' (step_start t step)) q
      in if all_complete q1
         then (pipeline_complete (t + 2) (if any_failed q1 then FAILED else SUCCEEDED) q1,
               t + 3, True)
         else (q1, t + 2, True))"
  by (simp add: run_step_def simulated_def)

lemma shape_pipeline_complete [simp]: "shape (pipeline_complete t s q) = shape q"
  by (simp add: shape_def)

lemma pending_count_pipeline_complete [simp]:
  "pending_count (pipeline_complete t s q) = pending_count q"
  by (simp add: pending_count_def)

lemma store_step_shape:
  assumes "map_of (p_steps q) sid = Some step" and "s_dependencies step' = s_dependencies step"
  shows "shape (store_step sid step' q) = shape q"
  using map_entry_shape [OF assms(1), of s_dependencies "\<lambda>_. step'"] assms(2)
  by (simp add: shape_def store_step_def)

lemma store_step_pending:
  assumes "map_of (p_steps q) sid = Some step" and "s_status step = Pending"
    and "s_status step' \<noteq> Pending"
  shows "Suc (pending_count (store_step sid step' q)) = pending_count q"
  using map_entry_count [OF assms(1), of "\<lambda>s. s_status s = Pending" "\<lambda>_. step'"] assms(2,3)
  by (simp add: pending_count_def store_step_def)

lemma store_step_statuses:
  assumes "\<forall>(k, s) \<in> set (p_steps q). P s" and "P step'"
  shows "\<forall>(k, s) \<in> set (p_steps (store_step sid step' q)). P s"
  using assms map_entry_set [of _ _ sid "\<lambda>_. step'" "p_steps q"]
  by (fastforce simp: store_step_def)

lemma store_step_all_complete:
  assumes "all_complete q" and "s_status step' = Succeeded"
  shows "all_complete (store_step sid step' q)"
proof -
  from assms(1) have "\<forall>(k, s) \<in> set (p_steps q). s_status s = Succeeded \<or> s_status s = Failed"
    by (auto simp: all_complete_def list_all_iff)
  from store_step_statuses [OF this, of step' sid] assms(2)
  show ?thesis by (auto simp: all_complete_def list_all_iff)
qed

lemma step_fields [simp]:
  "s_status (step_complete t b l s) = (if b then Succeeded else Failed)"
  "s_dependencies (step_complete t b l s) = s_dependencies s"
  "s_dependencies (step_start t s) = s_dependencies s"
  by (simp_all add: step_complete_def step_start_def)

lemma run_step_progressing:
  assumes rs: "run_step simulated t sid step q = (q', t', r)"
    and look: "map_of (p_steps q) sid = Some step"
    and prog: "progressing q"
  shows "shape q' = shape q" and "progressing q'"
    and "s_status step = Pending \<Longrightarrow> Suc (pending_count q') = pending_count q"
proof -
  let ?s = "step_complete (t + 1) True ''Step executed successfully'' (step_start t step)"
  let ?q1 = "store_step sid ?s q"
  have sh: "shape ?q1 = shape q" by (rule store_step_shape [OF look]) simp
  have st: "\<forall>(k, s) \<in> set (p_steps ?q1). s_status s = Pending \<or> s_status s = Succeeded"
    by (rule store_step_statuses) (use prog in \<open>auto simp: progressing_def\<close>)
  have ac: "all_complete ?q1" if "all_complete q"
    by (rule store_step_all_complete [OF that]) simp
  have q': "q' = (if all_complete ?q1
              then pipeline_complete (t + 2) (if any_failed ?q1 then FAILED else SUCCEEDED) ?q1
              else ?q1)"
    using rs by (auto simp: run_step_simulated Let_def split: if_splits)
  show "shape q' = shape q" using sh q' by simp
  show "progressing q'"
  proof (cases "all_complete ?q1")
    case True
    with q' st show ?thesis by (simp add: progressing_def)
  next
    case False
    with ac have "\<not> all_complete q" by blast
    with prog have "p_status q = IN_PROGRESS" by (simp add: progressing_def)
    then have "p_status ?q1 = IN_PROGRESS" by (simp add: store_step_def)
    with False q' st show ?thesis by (simp add: progressing_def)
  qed
  show "Suc (pending_count q') = pending_count q" if "s_status step = Pending"
    using store_step_pending [OF look that, of ?s] q' by simp
qed

lemma keys_shape: "map fst (p_steps q) = map fst (shape q)"
  by (simp add: shape_def case_prod_unfold comp_def)


subsection \<open>The terminal status of a run\<close>

lemma run_step_shape:
  assumes "run_step run t sid step q = (q', t', r)" and "map_of (p_steps q) sid = Some step"
  shows "shape q' = shape q"
proof -
  have "shape (store_step sid (step_complete u b l (step_start t step)) q) = shape q" for u b l
    by (rule store_step_shape [OF assms(2)]) simp
  with assms(1) show ?thesis
    by (auto simp: run_step_def Let_def split: option.splits if_splits)
qed

lemma execute_step_shape:
  assumes "\<exists>q. current_executions st pid = Some q \<and> shape q = sh"
  shows "\<exists>q. current_executions (fst (execute_step run st pid sid)) pid = Some q \<and> shape q = sh"
proof (cases rule: execute_step_cases [of run st pid sid])
  case skip
  with assms show ?thesis by simp
next
  case (exec q step)
  obtain q' t' r where rs: "run_step run (now st) sid step q = (q', t', r)"
    by (cases "run_step run (now st) sid step q")
  from run_step_shape [OF rs exec(2)] exec(1,4) rs assms show ?thesis by simp
qed

text \<open>
  Claim C3. When \<open>execute_pipeline\<close> has driven the steps of a pipeline to a terminal state
  (a step was still to be completed at the call, every step is \<open>succeeded\<close> or \<open>failed\<close> at
  the return), the pipeline has the steps it had at the call, its status is \<open>SUCCEEDED\<close> if
  every step's status is \<open>succeeded\<close> and \<open>FAILED\<close> if the status of some step is
  \<open>failed\<close>, and \<open>completed_at\<close> holds the last reading of the clock, the one taken when
  the last step completed.
\<close>
theorem terminal_pipeline_status:
  assumes run: "execute_pipeline run st p = Some (st', r)"
    and todo: "list_ex (\<lambda>(k, s). s_status s \<noteq> Succeeded \<and> s_status s \<noteq> Failed) (p_steps p)"
    and final: "current_executions st' (p_id p) = Some p'"
    and complete: "list_all (\<lambda>(k, s). s_status s = Succeeded \<or> s_status s = Failed) (p_steps p')"
  shows "map fst (p_steps p') = map fst (p_steps p) \<and>
         (list_all (\<lambda>(k, s). s_status s = Succeeded) (p_steps p') \<longrightarrow> p_status p' = SUCCEEDED) \<and>
         (list_ex (\<lambda>(k, s). s_status s = Failed) (p_steps p') \<longrightarrow> p_status p' = FAILED) \<and>
         (\<exists>t. p_completed_at p' = Some t \<and> Suc t = now st')"
proof -
  let ?st1 = "st\<lparr> current_executions := (current_executions st)(p_id p \<mapsto> pipeline_start (now st) p),
                   now := Suc (now st) \<rparr>"
  from todo have todo': "\<not> all_complete (pipeline_start (now st) p)"
    by (auto simp: all_complete_def pipeline_start_def list_all_iff list_ex_iff)
  have "\<exists>q. current_executions st' (p_id p) = Some q \<and> completion_recorded q (now st')"
  proof (rule execute_pipeline_invariant
      [where I = "\<lambda>s. \<exists>q. current_executions s (p_id p) = Some q \<and> completion_recorded q (now s)",
        OF _ run])
    fix s :: executor_state and sid
    assume "\<exists>q. current_executions s (p_id p) = Some q \<and> completion_recorded q (now s)"
    then show "\<exists>q. current_executions (fst (execute_step run s (p_id p) sid)) (p_id p) = Some q \<and>
            completion_recorded q (now (fst (execute_step run s (p_id p) sid)))"
      by (rule execute_step_completion)
  next
    from todo' show "\<exists>q. current_executions ?st1 (p_id p) = Some q \<and>
         completion_recorded q (now ?st1)"
      by (simp add: completion_recorded_def)
  qed
  with final have cr: "completion_recorded p' (now st')" by simp
  have "\<exists>q. current_executions st' (p_id p) = Some q \<and> shape q = shape p"
  proof (rule execute_pipeline_invariant
      [where I = "\<lambda>s. \<exists>q. current_executions s (p_id p) = Some q \<and> shape q = shape p",
        OF _ run])
    fix s :: executor_state and sid
    assume "\<exists>q. current_executions s (p_id p) = Some q \<and> shape q = shape p"
    then show "\<exists>q. current_executions (fst (execute_step run s (p_id p) sid)) (p_id p) = Some q \<and>
            shape q = shape p"
      by (rule execute_step_shape)
  next
    show "\<exists>q. current_executions ?st1 (p_id p) = Some q \<and> shape q = shape p"
      by (simp add: shape_def pipeline_start_def)
  qed
  with final have "shape p' = shape p" by simp
  then have keys: "map fst (p_steps p') = map fst (p_steps p)" by (simp add: keys_shape)
  from complete have ac: "all_complete p'" by (simp add: all_complete_def)
  have af: "any_failed p' = list_ex (\<lambda>(k, s). s_status s = Failed) (p_steps p')"
    by (simp add: any_failed_def)
  have "list_all (\<lambda>(k, s). s_status s = Succeeded) (p_steps p') \<Longrightarrow>
        \<not> list_ex (\<lambda>(k, s). s_status s = Failed) (p_steps p')"
    by (auto simp: list_all_iff list_ex_iff)
  with cr ac keys show ?thesis unfolding completion_recorded_def af by auto
qed

theorem terminal_pipeline_status_witness:
  "(\<exists>st' r p'. execute_pipeline simulated idle example_diamond = Some (st', r) \<and>
      current_executions st' (p_id example_diamond) = Some p' \<and>
      map fst (p_steps p') = [''a'', ''b'', ''c'', ''d''] \<and>
      list_all (\<lambda>(k, s). s_status s = Succeeded) (p_steps p') \<and>
      p_status p' = SUCCEEDED \<and> (\<exists>t. p_completed_at p' = Some t \<and> Suc t = now st')) \<and>
   (\<exists>st' r p'. execute_pipeline (failing ''d'' ''boom'') idle example_diamond = Some (st', r) \<and>
      current_executions st' (p_id example_diamond) = Some p' \<and>
      map fst (p_steps p') = [''a'', ''b'', ''c'', ''d''] \<and>
      list_all (\<lambda>(k, s). s_status s = Succeeded \<or> s_status s = Failed) (p_steps p') \<and>
      list_ex (\<lambda>(k, s). s_status s = Failed) (p_steps p') \<and>
      p_status p' = FAILED \<and> (\<exists>t. p_completed_at p' = Some t \<and> Suc t = now st'))"
proof -
  have todo: "list_ex (\<lambda>(k, s). s_status s \<noteq> Succeeded \<and> s_status s \<noteq> Failed)
      (p_steps example_diamond)"
    by (simp add: example_diamond_def diamond_steps_def PipelineStep_init_def)
  have keys: "map fst (p_steps example_diamond) = [''a'', ''b'', ''c'', ''d'']"
    by (simp add: example_diamond_def diamond_steps_def)
  have "\<exists>st' p'. execute_pipeline simulated idle example_diamond = Some (st', True) \<and>
      current_executions st' (p_id example_diamond) = Some p' \<and>
      list_all (\<lambda>(k, s). s_status s = Succeeded) (p_steps p')"
    by (simp add: idle_def example_diamond_def diamond_steps_def exec_defs execution_loop.simps)
  then obtain st1 p1 where run1: "execute_pipeline simulated idle example_diamond = Some (st1, True)"
    and p1: "current_executions st1 (p_id example_diamond) = Some p1"
      "list_all (\<lambda>(k, s). s_status s = Succeeded) (p_steps p1)"
    by blast
  from p1(2) have c1: "list_all (\<lambda>(k, s). s_status s = Succeeded \<or> s_status s = Failed) (p_steps p1)"
    by (auto simp: list_all_iff)
  from terminal_pipeline_status [OF run1 todo p1(1) c1] p1(2) keys
  have r1: "map fst (p_steps p1) = [''a'', ''b'', ''c'', ''d''] \<and> p_status p1 = SUCCEEDED \<and>
      (\<exists>t. p_completed_at p1 = Some t \<and> Suc t = now st1)" by simp
  have "\<exists>st' p'. execute_pipeline (failing ''d'' ''boom'') idle example_diamond = Some (st', False) \<and>
      current_executions st' (p_id example_diamond) = Some p' \<and>
      list_all (\<lambda>(k, s). s_status s = Succeeded \<or> s_status s = Failed) (p_steps p') \<and>
      list_ex (\<lambda>(k, s). s_status s = Failed) (p_steps p')"
    by (simp add: idle_def example_diamond_def diamond_steps_def exec_defs failing_def
        execution_loop.simps)
  then obtain st2 p2 where
    run2: "execute_pipeline (failing ''d'' ''boom'') idle example_diamond = Some (st2, False)"
    and p2: "current_executions st2 (p_id example_diamond) = Some p2"
      "list_all (\<lambda>(k, s). s_status s = Succeeded \<or> s_status s = Failed) (p_steps p2)"
      "list_ex (\<lambda>(k, s). s_status s = Failed) (p_steps p2)"
    by blast
  from terminal_pipeline_status [OF run2 todo p2(1,2)] p2(3) keys
  have r2: "map fst (p_steps p2) = [''a'', ''b'', ''c'', ''d''] \<and> p_status p2 = FAILED \<and>
      (\<exists>t. p_completed_at p2 = Some t \<and> Suc t = now st2)" by simp
  from run1 p1 r1 have a: "\<exists>st' r p'. execute_pipeline simulated idle example_diamond = Some (st', r) \<and>
      current_executions st' (p_id example_diamond) = Some p' \<and>
      map fst (p_steps p') = [''a'', ''b'', ''c'', ''d''] \<and>
      list_all (\<lambda>(k, s). s_status s = Succeeded) (p_steps p') \<and>
      p_status p' = SUCCEEDED \<and> (\<exists>t. p_completed_at p' = Some t \<and> Suc t = now st')"
    by - (rule exI [where x = st1], rule exI [where x = True], rule exI [where x = p1], simp)
  from run2 p2 r2 have b: "\<exists>st' r p'.
      execute_pipeline (failing ''d'' ''boom'') idle example_diamond = Some (st', r) \<and>
      current_executions st' (p_id example_diamond) = Some p' \<and>
      map fst (p_steps p') = [''a'', ''b'', ''c'', ''d''] \<and>
      list_all (\<lambda>(k, s). s_status s = Succeeded \<or> s_status s = Failed) (p_steps p') \<and>
      list_ex (\<lambda>(k, s). s_status s = Failed) (p_steps p') \<and>
      p_status p' = FAILED \<and> (\<exists>t. p_completed_at p' = Some t \<and> Suc t = now st')"
    by - (rule exI [where x = st2], rule exI [where x = False], rule exI [where x = p2], simp)
  from a b show ?thesis by (rule conjI)
qed


subsection \<open>Termination on acyclic pipelines\<close>

lemma closed_shape:
  "closed q \<longleftrightarrow> (\<forall>(k, ds) \<in> set (shape q). set ds \<subseteq> set (map fst (shape q)))"
  unfolding closed_def keys_shape [symmetric] by (force simp: shape_def)

lemma dependency_graph_shape:
  "dependency_graph q = {(d, k). \<exists>ds. (k, ds) \<in> set (shape q) \<and> d \<in> set ds}"
  unfolding dependency_graph_def shape_def by force

lemma shape_transfer:
  assumes "shape q' = shape q"
  shows "closed q' = closed q" and "dependency_graph q' = dependency_graph q"
    and "map fst (p_steps q') = map fst (p_steps q)"
  using assms by (simp_all add: closed_shape dependency_graph_shape keys_shape)

lemma deps_complete_closed:
  assumes "deps_complete steps deps" and "set deps \<subseteq> fst ` set steps"
  shows "dependencies_succeeded steps deps"
proof -
  have "case map_of steps d of None \<Rightarrow> False | Some dep \<Rightarrow> s_status dep = Succeeded"
    if "d \<in> set deps" for d
  proof -
    from that assms(2) have "map_of steps d \<noteq> None" by (auto simp: map_of_eq_None_iff)
    moreover from that assms(1)
    have "case map_of steps d of None \<Rightarrow> True | Some dep \<Rightarrow> s_status dep = Succeeded"
      by (simp add: deps_complete_def list_all_iff)
    ultimately show ?thesis by (auto split: option.splits)
  qed
  then show ?thesis by (simp add: dependencies_succeeded_iff list_all_iff)
qed

lemma execute_step_progressing:
  assumes "\<exists>q. current_executions st pid = Some q \<and> shape q = sh \<and> progressing q"
  shows "\<exists>q. current_executions (fst (execute_step simulated st pid sid)) pid = Some q \<and>
            shape q = sh \<and> progressing q"
proof (cases rule: execute_step_cases [of simulated st pid sid])
  case skip
  with assms show ?thesis by simp
next
  case (exec q step)
  obtain q' t' r where rs: "run_step simulated (now st) sid step q = (q', t', r)"
    by (cases "run_step simulated (now st) sid step q")
  from assms exec(1) have "shape q = sh" "progressing q" by auto
  with run_step_progressing(1,2) [OF rs exec(2)] exec(4) rs show ?thesis by simp
qed

lemma execute_if_ready_step:
  assumes cur: "current_executions st pid = Some q" and prog: "progressing q" and cl: "closed q"
  shows "(\<not> ready_key q k \<and> execute_if_ready simulated pid k (st, pm) = (st, pm)) \<or>
         (ready_key q k \<and>
          (\<exists>st' q'. execute_if_ready simulated pid k (st, pm) = (st', True) \<and>
              current_executions st' pid = Some q' \<and> shape q' = shape q \<and> progressing q' \<and>
              Suc (pending_count q') = pending_count q))"
proof (cases "ready_key q k")
  case False
  with cur show ?thesis
    by (auto simp: execute_if_ready_def ready_key_def split: option.splits)
next
  case True
  then obtain step where step: "map_of (p_steps q) k = Some step" "s_status step = Pending"
    "deps_complete (p_steps q) (s_dependencies step)"
    by (auto simp: ready_key_def split: option.splits)
  from step(1) have "(k, step) \<in> set (p_steps q)" by (rule map_of_SomeD)
  with cl have "set (s_dependencies step) \<subseteq> fst ` set (p_steps q)" by (auto simp: closed_def)
  with step(3) have ds: "dependencies_succeeded (p_steps q) (s_dependencies step)"
    by (rule deps_complete_closed)
  obtain q' t' r where rs: "run_step simulated (now st) k step q = (q', t', r)"
    by (cases "run_step simulated (now st) k step q")
  have ex: "execute_step simulated st pid k =
      (st\<lparr> current_executions := (current_executions st)(pid \<mapsto> q'), now := t',
           start_calls := start_calls st @ [(k, p_steps q)] \<rparr>, r)"
    using cur step(1) ds rs by (simp add: execute_step_def)
  from run_step_progressing [OF rs step(1) prog] step(2)
  have "shape q' = shape q" "progressing q'" "Suc (pending_count q') = pending_count q" by auto
  with True cur step ex show ?thesis by (simp add: execute_if_ready_def)
qed

lemma execute_if_ready_True:
  "snd (execute_if_ready run pid k (s, True)) = True"
  by (simp add: execute_if_ready_def split: option.splits)

lemma fold_ready_True:
  "snd (fold (execute_if_ready run pid) ks (s, True)) = True"
proof (induction ks arbitrary: s)
  case Nil
  show ?case by simp
next
  case (Cons k ks)
  obtain s1 b1 where e: "execute_if_ready run pid k (s, True) = (s1, b1)"
    by (cases "execute_if_ready run pid k (s, True)")
  with execute_if_ready_True [of run pid k s] have "b1 = True" by simp
  with e Cons.IH [of s1] show ?case by simp
qed


lemma scan_fold:
  assumes "current_executions st pid = Some q" and "progressing q" and "closed q"
    and "fold (execute_if_ready simulated pid) ks (st, pm) = (st', pm')"
  shows "\<exists>q'. current_executions st' pid = Some q' \<and> shape q' = shape q \<and> progressing q' \<and>
           pending_count q' \<le> pending_count q \<and>
           (pm' \<longrightarrow> pm \<or> pending_count q' < pending_count q) \<and>
           (\<not> pm' \<longrightarrow> st' = st \<and> (\<forall>k \<in> set ks. \<not> ready_key q k))"
  using assms
proof (induction ks arbitrary: st q pm)
  case Nil
  from Nil.prems(4) have "st' = st" "pm' = pm" by simp_all
  with Nil.prems(1,2) show ?case by simp
next
  case (Cons k ks)
  show ?case
  proof (cases "ready_key q k")
    case False
    with execute_if_ready_step [OF Cons.prems(1,2,3), of k pm]
    have "execute_if_ready simulated pid k (st, pm) = (st, pm)" by blast
    with Cons.prems(4) have "fold (execute_if_ready simulated pid) ks (st, pm) = (st', pm')"
      by simp
    from Cons.IH [OF Cons.prems(1,2,3) this]
    obtain q' where q': "current_executions st' pid = Some q'" "shape q' = shape q"
      "progressing q'" "pending_count q' \<le> pending_count q"
      "pm' \<longrightarrow> pm \<or> pending_count q' < pending_count q"
      "\<not> pm' \<longrightarrow> st' = st \<and> (\<forall>k \<in> set ks. \<not> ready_key q k)"
      by blast
    from q'(6) False
    have "\<not> pm' \<longrightarrow> st' = st \<and> (\<forall>j \<in> set (k # ks). \<not> ready_key q j)" by simp
    with q'(1-5) show ?thesis by blast
  next
    case True
    with execute_if_ready_step [OF Cons.prems(1,2,3), of k pm]
    obtain st1 q1 where e: "execute_if_ready simulated pid k (st, pm) = (st1, True)"
      and c1: "current_executions st1 pid = Some q1" and s1: "shape q1 = shape q"
      and p1: "progressing q1" and n1: "Suc (pending_count q1) = pending_count q"
      by blast
    from shape_transfer(1) [OF s1] Cons.prems(3) have cl1: "closed q1" by simp
    from Cons.prems(4) e
    have f: "fold (execute_if_ready simulated pid) ks (st1, True) = (st', pm')" by simp
    from fold_ready_True [of simulated pid ks st1] f have pm': "pm'" by simp
    from Cons.IH [OF c1 p1 cl1 f]
    obtain q' where q': "current_executions st' pid = Some q'" "shape q' = shape q1"
      "progressing q'" "pending_count q' \<le> pending_count q1"
      by blast
    from q'(2) s1 have sh: "shape q' = shape q" by simp
    from q'(4) n1 have lt: "pending_count q' < pending_count q" by simp
    then have le: "pending_count q' \<le> pending_count q" by simp
    from q'(1) sh q'(3) le lt pm' show ?thesis by blast
  qed
qed

lemma no_ready_all_complete:
  assumes prog: "progressing q" and cl: "closed q" and dist: "distinct (map fst (p_steps q))"
    and acyc: "acyclic (dependency_graph q)"
    and nr: "\<forall>k \<in> set (map fst (p_steps q)). \<not> ready_key q k"
  shows "all_complete q"
proof (rule ccontr)
  assume "\<not> all_complete q"
  let ?S = "{k. \<exists>s. (k, s) \<in> set (p_steps q) \<and> s_status s = Pending}"
  from prog have stat: "\<And>k s. (k, s) \<in> set (p_steps q) \<Longrightarrow> s_status s = Pending \<or> s_status s = Succeeded"
    by (auto simp: progressing_def)
  with \<open>\<not> all_complete q\<close> obtain k0 where "k0 \<in> ?S"
    by (fastforce simp: all_complete_def list_all_iff)
  have "dependency_graph q \<subseteq> (\<Union>(k, s) \<in> set (p_steps q). set (s_dependencies s)) \<times> fst ` set (p_steps q)"
    by (force simp: dependency_graph_def)
  then have "finite (dependency_graph q)" by (rule finite_subset) auto
  then have "wf (dependency_graph q)" using acyc by (rule finite_acyclic_wf)
  from wfE_min [OF this \<open>k0 \<in> ?S\<close>]
  obtain k where k: "k \<in> ?S" and kmin: "\<And>d. (d, k) \<in> dependency_graph q \<Longrightarrow> d \<notin> ?S" by blast
  from k obtain s where s: "(k, s) \<in> set (p_steps q)" "s_status s = Pending" by blast
  from dist s(1) have look: "map_of (p_steps q) k = Some s" by simp
  have "deps_complete (p_steps q) (s_dependencies s)"
    unfolding deps_complete_def list_all_iff
  proof
    fix d assume d: "d \<in> set (s_dependencies s)"
    with s(1) have "(d, k) \<in> dependency_graph q" by (auto simp: dependency_graph_def)
    then have notS: "d \<notin> ?S" by (rule kmin)
    show "case map_of (p_steps q) d of None \<Rightarrow> True | Some dep \<Rightarrow> s_status dep = Succeeded"
    proof (cases "map_of (p_steps q) d")
      case None
      then show ?thesis by simp
    next
      case (Some dep)
      then have "(d, dep) \<in> set (p_steps q)" by (rule map_of_SomeD)
      with notS stat [OF this] have "s_status dep = Succeeded" by auto
      with Some show ?thesis by simp
    qed
  qed
  with look s(2) have "ready_key q k" by (simp add: ready_key_def)
  moreover from s(1) have "k \<in> set (map fst (p_steps q))" by force
  ultimately show False using nr by blast
qed

lemma loop_terminates:
  assumes "current_executions st pid = Some q" and "progressing q" and "closed q"
    and "distinct (map fst (p_steps q))" and "acyclic (dependency_graph q)"
  shows "\<exists>st' q'. execution_loop simulated pid True st = Some st' \<and>
           current_executions st' pid = Some q' \<and> shape q' = shape q \<and> progressing q' \<and>
           all_complete q'"
  using assms
proof (induction "pending_count q" arbitrary: st q rule: less_induct)
  case less
  show ?case
  proof (cases "p_status q = IN_PROGRESS")
    case False
    with less.prems(2) have "all_complete q" by (simp add: progressing_def)
    moreover from False less.prems(1) have "execution_loop simulated pid True st = Some st"
      by (subst execution_loop.simps) (simp add: pipeline_status_def)
    ultimately show ?thesis using less.prems(1,2) by blast
  next
    case True
    obtain st1 pm1 where sc: "scan simulated pid st = (st1, pm1)"
      by (cases "scan simulated pid st")
    with less.prems(1)
    have f: "fold (execute_if_ready simulated pid) (map fst (p_steps q)) (st, False) = (st1, pm1)"
      by (simp add: scan_def step_ids_def)
    from scan_fold [OF less.prems(1,2,3) f]
    obtain q1 where q1: "current_executions st1 pid = Some q1" "shape q1 = shape q"
      "progressing q1" "pm1 \<longrightarrow> pending_count q1 < pending_count q"
      "\<not> pm1 \<longrightarrow> st1 = st \<and> (\<forall>k \<in> set (map fst (p_steps q)). \<not> ready_key q k)"
      by blast
    have unfold: "execution_loop simulated pid True st = execution_loop simulated pid pm1 st1"
      using True less.prems(1) sc by (subst execution_loop.simps) (simp add: pipeline_status_def)
    show ?thesis
    proof (cases pm1)
      case True
      with q1(4) have lt: "pending_count q1 < pending_count q" by simp
      from shape_transfer [OF q1(2)] less.prems(3,4,5)
      have "closed q1" "distinct (map fst (p_steps q1))" "acyclic (dependency_graph q1)"
        by simp_all
      from less.hyps [OF lt q1(1) q1(3) this] unfold True q1(2) show ?thesis by simp
    next
      case False
      with q1(5) have same: "st1 = st" and nr: "\<forall>k \<in> set (map fst (p_steps q)). \<not> ready_key q k"
        by simp_all
      have "execution_loop simulated pid False st = Some st"
        by (subst execution_loop.simps) simp
      with unfold False same have "execution_loop simulated pid True st = Some st" by simp
      moreover have "all_complete q"
        by (rule no_ready_all_complete [OF less.prems(2,3,4,5) nr])
      ultimately show ?thesis using less.prems(1,2) by blast
    qed
  qed
qed

lemma progressing_complete:
  assumes "progressing q" and "all_complete q"
  shows "list_all (\<lambda>(k, s). s_status s = Succeeded) (p_steps q)"
  using assms by (fastforce simp: progressing_def all_complete_def list_all_iff)

text \<open>
  Claim C5, as stated, fails. In the chain \<open>A\<close>; \<open>B\<close> after \<open>A\<close>; \<open>C\<close> after \<open>B\<close>, where
  \<open>B\<close> has already failed when \<open>execute_pipeline\<close> is called, the graph is acyclic and every
  dependency id names a step, yet the run returns \<open>False\<close> with \<open>C\<close> still pending and the
  pipeline \<open>IN_PROGRESS\<close>: a failed step is never run again, and the step after it is never
  ready. In the diamond, where every step is pending at the call, a first step whose execution
  raises leaves the three other steps pending.
\<close>

theorem failed_dependency_counterexample:
  "shape example_blocked = [(''a'', []), (''b'', [''a'']), (''c'', [''b''])] \<and>
   acyclic (dependency_graph example_blocked) \<and>
   report simulated idle example_blocked =
     Some (False, IN_PROGRESS, None,
           [(''a'', Succeeded, Some 2), (''b'', Failed, None), (''c'', Pending, None)]) \<and>
   shape example_diamond =
     [(''a'', []), (''b'', [''a'']), (''c'', [''a'']), (''d'', [''b'', ''c''])] \<and>
   report (failing ''a'' ''boom'') idle example_diamond =
     Some (False, FAILED, Some 4,
           [(''a'', Failed, Some 2), (''b'', Pending, None), (''c'', Pending, None),
            (''d'', Pending, None)])"
proof -
  have "shape example_blocked = [(''a'', []), (''b'', [''a'']), (''c'', [''b''])]"
    by (simp add: shape_def example_blocked_def PipelineStep_init_def)
  moreover have "acyclic (dependency_graph example_blocked)"
    by (rule acyclicI_order
        [where f = "\<lambda>k. if k = ''a'' then 2 else if k = ''c'' then 0 else (1::nat)"])
       (auto simp: dependency_graph_def example_blocked_def PipelineStep_init_def)
  moreover have "report simulated idle example_blocked =
     Some (False, IN_PROGRESS, None,
           [(''a'', Succeeded, Some 2), (''b'', Failed, None), (''c'', Pending, None)])"
    by (simp add: report_def idle_def example_blocked_def exec_defs execution_loop.simps)
  moreover have "shape example_diamond =
     [(''a'', []), (''b'', [''a'']), (''c'', [''a'']), (''d'', [''b'', ''c''])]"
    by (simp add: shape_def example_diamond_def diamond_steps_def PipelineStep_init_def)
  moreover have "report (failing ''a'' ''boom'') idle example_diamond =
     Some (False, FAILED, Some 4,
           [(''a'', Failed, Some 2), (''b'', Pending, None), (''c'', Pending, None),
            (''d'', Pending, None)])"
    by (simp add: report_def idle_def example_diamond_def diamond_steps_def failing_def exec_defs
        execution_loop.simps)
  ultimately show ?thesis by (intro conjI)
qed

text \<open>
  Claim C5, amended. For a pipeline whose dependency graph is acyclic, whose dependency ids all
  name steps of the pipeline, and whose steps are each pending or succeeded when
  \<open>execute_pipeline\<close> is called (none has failed, none is in progress), when the execution
  of no step raises (the source's simulated execution never does), \<open>execute_pipeline\<close>
  terminates and, when it returns, the pipeline has the steps it had at the call and the
  status of every one of them is terminal: it is \<open>succeeded\<close>. The keys of the dictionary
  \<open>steps\<close> are distinct.
\<close>
theorem acyclic_pipeline_terminates:
  assumes dist: "distinct (map fst (p_steps p))"
    and present: "\<forall>(k, s) \<in> set (p_steps p). set (s_dependencies s) \<subseteq> fst ` set (p_steps p)"
    and acyc: "acyclic (dependency_graph p)"
    and fresh: "\<forall>(k, s) \<in> set (p_steps p). s_status s = Pending \<or> s_status s = Succeeded"
    and returns: "\<forall>step. run step = None"
  shows "\<exists>st' r p'. execute_pipeline run st p = Some (st', r) \<and>
           current_executions st' (p_id p) = Some p' \<and>
           map fst (p_steps p') = map fst (p_steps p) \<and>
           list_all (\<lambda>(k, s). s_status s = Succeeded) (p_steps p')"
proof -
  let ?pid = "p_id p"
  let ?q0 = "pipeline_start (now st) p"
  let ?st1 = "st\<lparr> current_executions := (current_executions st)(?pid \<mapsto> ?q0),
                   now := Suc (now st) \<rparr>"
  let ?st2 = "fold (execute_if_independent simulated ?pid) (step_ids ?st1 ?pid) ?st1"
  let ?I = "\<lambda>s. \<exists>q. current_executions s ?pid = Some q \<and> shape q = shape p \<and> progressing q"
  from returns have run: "run = simulated" by (auto simp: simulated_def)
  have "shape ?q0 = shape p" by (simp add: shape_def pipeline_start_def)
  moreover from fresh have "progressing ?q0" by (simp add: progressing_def pipeline_start_def)
  ultimately have I1: "?I ?st1" by simp
  have "?I ?st2"
  proof (rule fold_invariant [where I = ?I, OF _ I1])
    fix k and s :: executor_state
    assume "?I s"
    then show "?I (execute_if_independent simulated ?pid k s)"
      by (rule execute_if_independent_invariant [where I = ?I, rotated])
         (rule execute_step_progressing)
  qed
  then obtain q2 where q2: "current_executions ?st2 ?pid = Some q2" "shape q2 = shape p"
    "progressing q2" by blast
  from present have "closed p" by (simp add: closed_def)
  with shape_transfer [OF q2(2)] dist acyc
  have "closed q2" "distinct (map fst (p_steps q2))" "acyclic (dependency_graph q2)"
    by simp_all
  from loop_terminates [OF q2(1) q2(3) this]
  obtain st' p' where l: "execution_loop simulated ?pid True ?st2 = Some st'"
    and p': "current_executions st' ?pid = Some p'" "shape p' = shape q2" "progressing p'"
      "all_complete p'" by blast
  from p'(2) q2(2) have keys: "map fst (p_steps p') = map fst (p_steps p)"
    by (simp add: keys_shape)
  from progressing_complete [OF p'(3,4)]
  have all: "list_all (\<lambda>(k, s). s_status s = Succeeded) (p_steps p')" .
  from l have "execute_pipeline run st p = Some (st', pipeline_status st' ?pid = Some SUCCEEDED)"
    unfolding run by (simp add: execute_pipeline_def Let_def)
  with p'(1) keys all show ?thesis
    by - (rule exI [where x = st'], rule exI [where x = "pipeline_status st' ?pid = Some SUCCEEDED"],
          rule exI [where x = p'], simp)
qed


theorem acyclic_pipeline_terminates_witness:
  "distinct (map fst (p_steps example_diamond)) \<and>
   list_all (\<lambda>(k, s). list_all (\<lambda>dep_id. dep_id \<in> set (map fst (p_steps example_diamond)))
                          (s_dependencies s)) (p_steps example_diamond) \<and>
   list_all (\<lambda>(k, s). s_status s = Pending) (p_steps example_diamond) \<and>
   (\<exists>st' r p'. execute_pipeline simulated idle example_diamond = Some (st', r) \<and>
      current_executions st' (p_id example_diamond) = Some p' \<and>
      map fst (p_steps p') = [''a'', ''b'', ''c'', ''d''] \<and>
      list_all (\<lambda>(k, s). s_status s = Succeeded) (p_steps p'))"
proof -
  have d: "distinct (map fst (p_steps example_diamond))"
    by (simp add: example_diamond_def diamond_steps_def)
  have c: "\<forall>(k, s) \<in> set (p_steps example_diamond).
      set (s_dependencies s) \<subseteq> fst ` set (p_steps example_diamond)"
    by (simp add: example_diamond_def diamond_steps_def PipelineStep_init_def)
  have a: "acyclic (dependency_graph example_diamond)"
    by (rule acyclicI_order
        [where f = "\<lambda>k. if k = ''a'' then 2 else if k = ''d'' then 0 else (1::nat)"])
       (auto simp: dependency_graph_def example_diamond_def diamond_steps_def
          PipelineStep_init_def)
  have f: "\<forall>(k, s) \<in> set (p_steps example_diamond). s_status s = Pending \<or> s_status s = Succeeded"
    by (simp add: example_diamond_def diamond_steps_def PipelineStep_init_def)
  have r: "\<forall>step. simulated step = None"
    by (simp add: simulated_def)
  have keys: "map fst (p_steps example_diamond) = [''a'', ''b'', ''c'', ''d'']"
    by (simp add: example_diamond_def diamond_steps_def)
  have "list_all (\<lambda>(k, s). list_all (\<lambda>dep_id. dep_id \<in> set (map fst (p_steps example_diamond)))
                          (s_dependencies s)) (p_steps example_diamond)"
    by (simp add: example_diamond_def diamond_steps_def PipelineStep_init_def)
  moreover have "list_all (\<lambda>(k, s). s_status s = Pending) (p_steps example_diamond)"
    by (simp add: example_diamond_def diamond_steps_def PipelineStep_init_def)
  moreover from acyclic_pipeline_terminates [OF d c a f r, of idle]
  have "\<exists>st' r p'. execute_pipeline simulated idle example_diamond = Some (st', r) \<and>
      current_executions st' (p_id example_diamond) = Some p' \<and>
      map fst (p_steps p') = [''a'', ''b'', ''c'', ''d''] \<and>
      list_all (\<lambda>(k, s). s_status s = Succeeded) (p_steps p')"
    unfolding keys .
  ultimately show ?thesis using d by (intro conjI)
qed


subsection \<open>A dependency id that names no step\<close>

text \<open>
  The loop's test \<open>deps_complete\<close> skips a dependency id that names no step, while
  \<open>execute_step\<close> refuses the step because of it: the pass reports progress, nothing changes,
  and the loop never exits. Pipelines made by \<open>create_pipeline\<close> have no such id.
\<close>

lemma spinning_loop_never_exits:
  assumes status: "pipeline_status st pid = Some IN_PROGRESS"
    and spin: "scan run pid st = (st, True)"
  shows "execution_loop run pid True st = None"
proof (cases "execution_loop run pid True st")
  case None
  then show ?thesis .
next
  case (Some y)
  have "run = run \<longrightarrow> pid = pid \<longrightarrow> True \<longrightarrow> st = st \<longrightarrow> False"
  proof (rule execution_loop.raw_induct
      [where P = "\<lambda>run' pid' pm st' y. run' = run \<longrightarrow> pid' = pid \<longrightarrow> pm \<longrightarrow> st' = st \<longrightarrow> False",
        OF _ Some])
    fix f run' pid' pm st' y
    assume IH: "\<And>run' pid' pm st' y. f run' pid' pm st' = Some y \<Longrightarrow>
                  run' = run \<longrightarrow> pid' = pid \<longrightarrow> pm \<longrightarrow> st' = st \<longrightarrow> False"
      and eq: "(if pm \<and> pipeline_status st' pid' = Some IN_PROGRESS
                then case scan run' pid' st' of (st1, pm1) \<Rightarrow> f run' pid' pm1 st1
                else Some st') = Some y"
    show "run' = run \<longrightarrow> pid' = pid \<longrightarrow> pm \<longrightarrow> st' = st \<longrightarrow> False"
    proof (intro impI)
      assume "run' = run" "pid' = pid" pm "st' = st"
      with eq status spin have "f run pid True st = Some y" by simp
      from IH [OF this] show False by simp
    qed
  qed
  then show ?thesis by simp
qed

lemma dangling_dependency_never_returns:
  "execute_pipeline simulated idle example_dangling = None"
proof -
  let ?pid = "p_id example_dangling"
  let ?st = "idle\<lparr> current_executions :=
                  (current_executions idle)(?pid \<mapsto> pipeline_start (now idle) example_dangling),
                now := Suc (now idle) \<rparr>"
  have s: "pipeline_status ?st ?pid = Some IN_PROGRESS"
    by (simp add: pipeline_status_def pipeline_start_def)
  have sc: "scan simulated ?pid ?st = (?st, True)"
    by (simp add: scan_def step_ids_def execute_if_ready_def execute_step_def deps_complete_def
        pipeline_start_def example_dangling_def PipelineStep_init_def Pipeline_init_def)
  have l: "execution_loop simulated ?pid True ?st = None"
    by (rule spinning_loop_never_exits [OF s sc])
  have f: "fold (execute_if_independent simulated ?pid) (step_ids ?st ?pid) ?st = ?st"
    by (simp add: step_ids_def execute_if_independent_def pipeline_start_def
        example_dangling_def PipelineStep_init_def Pipeline_init_def)
  show ?thesis
    by (simp only: execute_pipeline_def Let_def f l option.case)
qed


subsection \<open>A stalled pipeline\<close>

text \<open>
  Claim C2, as stated, fails: in the cycle \<open>X \<rightarrow> Y \<rightarrow> X\<close> the ready set is empty from the start,
  no step is in progress and both steps stay pending; the loop exits, \<open>execute_pipeline\<close>
  returns \<open>False\<close>, and the pipeline's status is still \<open>IN_PROGRESS\<close>, not \<open>FAILED\<close>.
\<close>

theorem stalled_pipeline_counterexample:
  "report simulated idle example_cycle =
     Some (False, IN_PROGRESS, None, [(''x'', Pending, None), (''y'', Pending, None)])"
  by (simp add: report_def idle_def example_cycle_def exec_defs execution_loop.simps)

lemma ready_empty_step:
  assumes "current_executions st pid = Some q" and "ready q = []"
  shows "execute_if_ready run pid k (st, pm) = (st, pm)"
proof (cases "map_of (p_steps q) k")
  case None
  with assms(1) show ?thesis by (simp add: execute_if_ready_def)
next
  case (Some step)
  then have "(k, step) \<in> set (p_steps q)" by (rule map_of_SomeD)
  with assms(2) have "\<not> (s_status step = Pending \<and>
      deps_complete (p_steps q) (s_dependencies step))"
    by (auto simp: ready_def filter_empty_conv)
  then have "(if s_status step = Pending \<and> deps_complete (p_steps q) (s_dependencies step)
              then (fst (execute_step run st pid k), True) else (st, pm)) = (st, pm)"
    by (simp only: if_False)
  with assms(1) Some show ?thesis by (simp add: execute_if_ready_def)
qed

lemma ready_empty_fold:
  assumes "current_executions st pid = Some q" and "ready q = []"
  shows "fold (execute_if_ready run pid) ks (st, pm) = (st, pm)"
  by (induction ks) (simp_all add: ready_empty_step [OF assms])

text \<open>
  Claim C2, amended. When the ready set, as the loop computes it, is empty at the head of the
  \<open>while\<close> loop, the loop terminates and leaves the executor's state as it is: the pipeline's
  status keeps the value it has (\<open>IN_PROGRESS\<close> stays \<open>IN_PROGRESS\<close>) and no step is
  changed. Nothing marks the pipeline \<open>FAILED\<close>.
\<close>

theorem stalled_loop_exits:
  assumes "current_executions st pid = Some q" and "ready q = []"
  shows "execution_loop run pid pm st = Some st"
proof -
  have sc: "scan run pid st = (st, False)"
    unfolding scan_def by (rule ready_empty_fold [OF assms])
  have "execution_loop run pid False st = Some st"
    by (subst execution_loop.simps) simp
  with sc show ?thesis by (subst execution_loop.simps) simp
qed

theorem stalled_loop_exits_witness:
  "current_executions
     (idle\<lparr> current_executions := [''q'' \<mapsto> pipeline_start 1 example_cycle], now := 2 \<rparr>) ''q'' =
     Some (pipeline_start 1 example_cycle) \<and>
   ready (pipeline_start 1 example_cycle) = [] \<and>
   pipeline_status
     (idle\<lparr> current_executions := [''q'' \<mapsto> pipeline_start 1 example_cycle], now := 2 \<rparr>) ''q'' =
     Some IN_PROGRESS \<and>
   execution_loop simulated ''q'' True
     (idle\<lparr> current_executions := [''q'' \<mapsto> pipeline_start 1 example_cycle], now := 2 \<rparr>) =
     Some (idle\<lparr> current_executions := [''q'' \<mapsto> pipeline_start 1 example_cycle], now := 2 \<rparr>)"
proof -
  let ?st = "idle\<lparr> current_executions := [''q'' \<mapsto> pipeline_start 1 example_cycle], now := 2 \<rparr>"
  have c: "current_executions ?st ''q'' = Some (pipeline_start 1 example_cycle)" by simp
  have r: "ready (pipeline_start 1 example_cycle) = []"
    by (simp add: ready_def pipeline_start_def example_cycle_def PipelineStep_init_def
        deps_complete_def)
  have s: "pipeline_status ?st ''q'' = Some IN_PROGRESS"
    by (simp add: pipeline_status_def pipeline_start_def)
  from stalled_loop_exits [OF c r, of simulated True] c r s show ?thesis by simp
qed

subsection \<open>A pipeline without steps\<close>

text \<open>
  Claim C10. Executing a pipeline that has no steps terminates, returns \<open>False\<close> and leaves
  the pipeline's status \<open>IN_PROGRESS\<close> and its \<open>completed_at\<close> as it was: unset (\<open>None\<close>)
  for a pipeline that was never completed, such as a new one. The completion of the pipeline is
  only computed in \<open>execute_step\<close>, which is never called.
\<close>

theorem empty_pipeline_not_completed:
  "(\<exists>st' p'. execute_pipeline run st (p\<lparr> p_steps := [] \<rparr>) = Some (st', False) \<and>
      current_executions st' (p_id p) = Some p' \<and> p_steps p' = [] \<and>
      p_status p' = IN_PROGRESS \<and> p_completed_at p' = p_completed_at p) \<and>
   report run st (Pipeline_init uuid t name app_id version) =
     Some (False, IN_PROGRESS, None, [])"
  by (simp add: report_def execute_pipeline_def step_ids_def pipeline_start_def
      pipeline_status_def execution_loop.simps scan_def Pipeline_init_def)

subsection \<open>A failed step in the diamond\<close>

text \<open>
  Claim C4, as stated, fails in its last sentence: a failed step can prevent the execution of a
  step that does not depend on it. Here \<open>A\<close> and \<open>B\<close> have no dependencies and \<open>X\<close> depends on
  \<open>A\<close> alone; \<open>B\<close> fails in the first loop, which marks the pipeline \<open>FAILED\<close>, so the \<open>while\<close>
  loop is never entered and \<open>X\<close> is never started.
\<close>

theorem independent_step_counterexample:
  "report (failing ''b'' ''boom'') idle example_fork =
     Some (False, FAILED, Some 6,
           [(''a'', Succeeded, Some 2), (''b'', Failed, Some 4), (''x'', Pending, None)])"
  by (simp add: report_def idle_def example_fork_def failing_def exec_defs execution_loop.simps)

text \<open>
  Claim C4, amended. In the diamond \<open>A\<close>; \<open>B\<close> after \<open>A\<close>; \<open>C\<close> after \<open>A\<close>;
  \<open>D\<close> after \<open>B\<close> and \<open>C\<close> (steps stored in this order under distinct ids), when the
  execution of \<open>B\<close> raises and that of the other steps returns, \<open>execute_pipeline\<close> returns
  \<open>False\<close> with \<open>A\<close> and \<open>C\<close> succeeded (\<open>C\<close> started after \<open>B\<close> failed), \<open>B\<close> failed,
  \<open>D\<close> still pending and never started, and the pipeline \<open>FAILED\<close>. Here the failure of
  \<open>B\<close> does not prevent the execution of \<open>C\<close>, which is reached in the same pass.
\<close>

theorem diamond_failure:
  assumes "distinct [a, b, c, d]"
  shows "report (failing b e) st (p\<lparr> p_steps := diamond_steps a b c d \<rparr>) =
     Some (False, FAILED, Some (now st + 5),
           [(a, Succeeded, Some (now st + 1)), (b, Failed, Some (now st + 3)),
            (c, Succeeded, Some (now st + 6)), (d, Pending, None)])"
proof -
  from assms have ne: "a \<noteq> b" "a \<noteq> c" "a \<noteq> d" "b \<noteq> c" "b \<noteq> d" "c \<noteq> d"
    "b \<noteq> a" "c \<noteq> a" "d \<noteq> a" "c \<noteq> b" "d \<noteq> b" "d \<noteq> c"
    by auto
  show ?thesis
    by (simp add: ne report_def diamond_steps_def failing_def exec_defs execution_loop.simps)
qed

theorem diamond_failure_witness:
  "distinct [''a'', ''b'', ''c'', ''d''] \<and>
   report (failing ''b'' ''boom'') idle example_diamond =
     Some (False, FAILED, Some 6,
           [(''a'', Succeeded, Some 2), (''b'', Failed, Some 4),
            (''c'', Succeeded, Some 7), (''d'', Pending, None)])"
proof -
  have d: "distinct [''a'', ''b'', ''c'', ''d'']" by simp
  have e: "example_diamond = example_diamond\<lparr> p_steps := diamond_steps ''a'' ''b'' ''c'' ''d'' \<rparr>"
    by (simp add: example_diamond_def)
  from diamond_failure [OF d, of "''boom''" idle example_diamond] e d
  show ?thesis by (simp add: idle_def)
qed


section \<open>Properties of the instantiation\<close>

subsection \<open>Sequential replacement on unambiguous templates\<close>

lemma placeholder_Cons: "placeholder k = CHR ''$'' # CHR ''{'' # k @ ''}''"
  by (simp add: placeholder_def)

lemma str_replace_skip:
  assumes "c \<noteq> CHR ''$''"
  shows "str_replace (placeholder k) v (c # cs) = c # str_replace (placeholder k) v cs"
  using assms by (simp add: placeholder_Cons)

lemma str_replace_plain:
  assumes "CHR ''$'' \<notin> set xs"
  shows "str_replace (placeholder k) v (xs @ s) = xs @ str_replace (placeholder k) v s"
  using assms
proof (induction xs)
  case Nil
  show ?case by simp
next
  case (Cons a xs)
  then have a: "a \<noteq> CHR ''$''" and IH: "str_replace (placeholder k) v (xs @ s) =
      xs @ str_replace (placeholder k) v s" by auto
  from str_replace_skip [OF a, of k v "xs @ s"] IH show ?case
    by (simp del: str_replace.simps)
qed

lemma prefix_name:
  assumes "c \<notin> set k" and "c \<notin> set n"
  shows "prefix (k @ [c]) (n @ c # s) \<longleftrightarrow> k = n"
  using assms
proof (induction k arbitrary: n)
  case Nil
  then show ?case by (cases n) auto
next
  case (Cons y k)
  then show ?case by (cases n) auto
qed

lemma str_replace_var:
  assumes "CHR ''$'' \<notin> set n" and "CHR ''}'' \<notin> set n" and "CHR ''}'' \<notin> set k"
  shows "str_replace (placeholder k) v (placeholder n @ s) =
           (if n = k then v else placeholder n) @ str_replace (placeholder k) v s"
proof (cases "n = k")
  case True
  have "str_replace (placeholder k) v (placeholder k @ s) = v @ str_replace (placeholder k) v s"
    by (simp add: placeholder_Cons)
  with True show ?thesis by simp
next
  case False
  from assms(2,3) False have np: "\<not> prefix (k @ ''}'') (n @ CHR ''}'' # s)"
    using prefix_name [of "CHR ''}''" k n s] by auto
  have "CHR ''$'' \<notin> set (CHR ''{'' # n @ ''}'')" using assms(1) by simp
  from str_replace_plain [OF this, of k v s]
  have "str_replace (placeholder k) v (CHR ''{'' # n @ CHR ''}'' # s) =
          CHR ''{'' # n @ CHR ''}'' # str_replace (placeholder k) v s" by simp
  with np False show ?thesis by (simp add: placeholder_Cons)
qed

lemma str_replace_render:
  assumes "list_all unambiguous ps" and "CHR ''}'' \<notin> set k"
  shows "str_replace (placeholder k) v (render ps) = render (bind k v ps)"
  using assms(1)
proof (induction ps)
  case Nil
  show ?case by (simp add: render_def bind_def placeholder_Cons)
next
  case (Cons p ps)
  then have IH: "str_replace (placeholder k) v (render ps) = render (bind k v ps)" by simp
  show ?case
  proof (cases p)
    case (Text s)
    with Cons.prems have "CHR ''$'' \<notin> set s" by simp
    from str_replace_plain [OF this, of k v "render ps"] IH Text
    show ?thesis by (simp add: render_def bind_def)
  next
    case (Var n)
    with Cons.prems have "CHR ''$'' \<notin> set n" "CHR ''}'' \<notin> set n" by simp_all
    from str_replace_var [OF this assms(2), of v "render ps"] IH Var
    show ?thesis by (simp add: render_def bind_def)
  qed
qed

lemma unambiguous_bind:
  assumes "list_all unambiguous ps" and "CHR ''$'' \<notin> set v"
  shows "list_all unambiguous (bind k v ps)"
  using assms by (induction ps) (auto simp: bind_def split: piece.splits)

lemma expand_bind:
  "expand (map_of ((k, v) # vars)) ps = expand (map_of vars) (bind k v ps)"
  by (induction ps) (auto simp: expand_def bind_def split: piece.splits)

lemma expand_empty: "expand Map.empty ps = render ps"
proof -
  have "expand_piece Map.empty p = render_piece p" for p by (cases p) simp_all
  then have "expand_piece Map.empty = render_piece" by (rule ext)
  then show ?thesis by (simp add: expand_def render_def)
qed

lemma substitute_render:
  assumes "list_all unambiguous ps"
    and "\<forall>(k, v) \<in> set vars. CHR ''}'' \<notin> set k \<and> CHR ''$'' \<notin> set v"
  shows "substitute vars (render ps) = expand (map_of vars) ps"
  using assms
proof (induction vars arbitrary: ps)
  case Nil
  show ?case by (simp add: substitute_def expand_empty)
next
  case (Cons kv vars)
  obtain k v where kv: "kv = (k, v)" by (cases kv)
  with Cons.prems(2) have k: "CHR ''}'' \<notin> set k" and v: "CHR ''$'' \<notin> set v"
    and rest: "\<forall>(k, v) \<in> set vars. CHR ''}'' \<notin> set k \<and> CHR ''$'' \<notin> set v" by auto
  have "substitute (kv # vars) (render ps) =
          substitute vars (str_replace (placeholder k) v (render ps))"
    by (simp add: substitute_def kv)
  also have "\<dots> = substitute vars (render (bind k v ps))"
    by (simp add: str_replace_render [OF Cons.prems(1) k])
  also have "\<dots> = expand (map_of vars) (bind k v ps)"
    by (rule Cons.IH [OF unambiguous_bind [OF Cons.prems(1) v] rest])
  also have "\<dots> = expand (map_of (kv # vars)) ps"
    unfolding kv by (rule expand_bind [symmetric])
  finally show ?case .
qed


subsection \<open>The two loops of create\_pipeline\<close>

lemma update_fresh:
  "k \<notin> fst ` set al \<Longrightarrow> AList.update k v al = al @ [(k, v)]"
  by (induction al) auto

lemma instantiate_steps_steps:
  assumes "distinct (map (\<lambda>j. uuid4 (Suc j)) [i..<i + length ts])"
    and "\<forall>j. i \<le> j \<and> j < i + length ts \<longrightarrow> uuid4 (Suc j) \<notin> fst ` set (p_steps P)"
  shows "p_steps (fst (instantiate_steps uuid4 clk vars i ts (P, M))) =
           p_steps P @ new_steps uuid4 vars i ts"
  using assms
proof (induction ts arbitrary: i P M)
  case Nil
  show ?case by (simp add: new_steps_def)
next
  case (Cons st ts)
  let ?step = "PipelineStep_init (uuid4 (Suc i)) (st_name st) (st_stage st)
                 (substitute vars (st_command_template st)) []"
  let ?P1 = "add_step (clk + Suc i) ?step P"
  let ?M1 = "AList.update (st_name st) (uuid4 (Suc i)) M"
  have up: "[i..<Suc (i + length ts)] = i # [Suc i..<Suc (i + length ts)]"
    by (simp add: upt_rec [of i] del: upt_Suc)
  from Cons.prems(2) have "uuid4 (Suc i) \<notin> fst ` set (p_steps P)" by simp
  then have P1: "p_steps ?P1 = p_steps P @ [(uuid4 (Suc i), ?step)]"
    by (simp add: add_step_def update_fresh PipelineStep_init_def)
  from Cons.prems(1) up
  have d1: "distinct (map (\<lambda>j. uuid4 (Suc j)) [Suc i..<Suc i + length ts])"
    and nin: "uuid4 (Suc i) \<notin> (\<lambda>j. uuid4 (Suc j)) ` set [Suc i..<Suc i + length ts]"
    by (simp_all del: upt_Suc)
  have f1: "\<forall>j. Suc i \<le> j \<and> j < Suc i + length ts \<longrightarrow> uuid4 (Suc j) \<notin> fst ` set (p_steps ?P1)"
  proof (intro allI impI)
    fix j assume j: "Suc i \<le> j \<and> j < Suc i + length ts"
    with Cons.prems(2) have "uuid4 (Suc j) \<notin> fst ` set (p_steps P)" by simp
    moreover have "uuid4 (Suc j) \<noteq> uuid4 (Suc i)"
    proof
      assume eq: "uuid4 (Suc j) = uuid4 (Suc i)"
      from j have "j \<in> set [Suc i..<Suc i + length ts]" by (simp del: upt_Suc)
      then have "uuid4 (Suc j) \<in> (\<lambda>j. uuid4 (Suc j)) ` set [Suc i..<Suc i + length ts]"
        by (rule imageI)
      with eq nin show False by simp
    qed
    ultimately show "uuid4 (Suc j) \<notin> fst ` set (p_steps ?P1)" unfolding P1 by simp
  qed
  have "instantiate_steps uuid4 clk vars i (st # ts) (P, M) =
          instantiate_steps uuid4 clk vars (Suc i) ts (?P1, ?M1)"
    by (simp add: Let_def PipelineStep_init_def)
  with Cons.IH [OF d1 f1, of ?M1] P1 up show ?case
    by (simp add: new_steps_def del: upt_Suc)
qed

lemma map_add_rev_Cons:
  "m ++ map_of (rev ((n, u) # zs)) = m(n \<mapsto> u) ++ map_of (rev zs)"
  by (simp add: fun_eq_iff map_add_def split: option.splits)

lemma instantiate_steps_map:
  "map_of (snd (instantiate_steps uuid4 clk vars i ts (P, M))) =
     map_of M ++ map_of (rev (zip (map st_name ts) (map (\<lambda>j. uuid4 (Suc j)) [i..<i + length ts])))"
proof (induction ts arbitrary: i P M)
  case Nil
  show ?case by simp
next
  case (Cons st ts)
  let ?step = "PipelineStep_init (uuid4 (Suc i)) (st_name st) (st_stage st)
                 (substitute vars (st_command_template st)) []"
  let ?P1 = "add_step (clk + Suc i) ?step P"
  let ?M1 = "AList.update (st_name st) (uuid4 (Suc i)) M"
  let ?zs = "zip (map st_name ts) (map (\<lambda>j. uuid4 (Suc j)) [Suc i..<Suc i + length ts])"
  have up: "[i..<i + length (st # ts)] = i # [Suc i..<Suc i + length ts]"
    by (simp add: upt_rec [of i] del: upt_Suc)
  have step: "instantiate_steps uuid4 clk vars i (st # ts) (P, M) =
          instantiate_steps uuid4 clk vars (Suc i) ts (?P1, ?M1)"
    by (simp add: Let_def PipelineStep_init_def)
  have "map_of (snd (instantiate_steps uuid4 clk vars (Suc i) ts (?P1, ?M1))) =
          map_of ?M1 ++ map_of (rev ?zs)"
    by (rule Cons.IH)
  also have "map_of ?M1 = (map_of M)(st_name st \<mapsto> uuid4 (Suc i))"
    by (rule AList.update_conv')
  also have "(map_of M)(st_name st \<mapsto> uuid4 (Suc i)) ++ map_of (rev ?zs) =
          map_of M ++ map_of (rev ((st_name st, uuid4 (Suc i)) # ?zs))"
    by (rule map_add_rev_Cons [symmetric])
  also have "(st_name st, uuid4 (Suc i)) # ?zs =
          zip (map st_name (st # ts)) (map (\<lambda>j. uuid4 (Suc j)) [i..<i + length (st # ts)])"
    unfolding up by simp
  finally show ?case unfolding step .
qed

lemma map_entry_nth:
  assumes "distinct (map fst al)" and "i < length al"
  shows "AList.map_entry (fst (al ! i)) f al = al[i := (fst (al ! i), f (snd (al ! i)))]"
  using assms
proof (induction al arbitrary: i)
  case Nil
  then show ?case by simp
next
  case (Cons p al)
  show ?case
  proof (cases i)
    case 0
    then show ?thesis by simp
  next
    case (Suc j)
    with Cons.prems have j: "j < length al" and d: "distinct (map fst al)"
      and p: "fst p \<notin> fst ` set al" by simp_all
    from j have "al ! j \<in> set al" by simp
    then have "fst (al ! j) \<in> fst ` set al" by (rule imageI)
    with p have "fst p \<noteq> fst (al ! j)" by metis
    with Cons.IH [OF d j] Suc show ?thesis by simp
  qed
qed

lemma set_up_dependencies_nth:
  assumes "distinct (map fst (p_steps P))" and "i + length ts \<le> length (p_steps P)"
  shows "\<exists>P'. set_up_dependencies M i ts P = Inr P' \<and>
           length (p_steps P') = length (p_steps P) \<and>
           (\<forall>j < length (p_steps P). p_steps P' ! j =
              (if i \<le> j \<and> j < i + length ts
               then (fst (p_steps P ! j),
                     (snd (p_steps P ! j))\<lparr> s_dependencies :=
                        resolve_dependencies M (st_dependencies (ts ! (j - i))) \<rparr>)
               else p_steps P ! j))"
  using assms
proof (induction ts arbitrary: i P)
  case Nil
  show ?case by auto
next
  case (Cons st ts)
  let ?al = "p_steps P"
  let ?f = "\<lambda>step. step\<lparr> s_dependencies := resolve_dependencies M (st_dependencies st) \<rparr>"
  let ?al1 = "?al[i := (fst (?al ! i), ?f (snd (?al ! i)))]"
  let ?P1 = "P\<lparr> p_steps := ?al1 \<rparr>"
  from Cons.prems(2) have i: "i < length ?al" by simp
  then have key: "map fst ?al ! i = fst (?al ! i)" by simp
  have me: "AList.map_entry (fst (?al ! i)) ?f ?al = ?al1"
    by (rule map_entry_nth [OF Cons.prems(1) i])
  have step: "set_up_dependencies M i (st # ts) P = set_up_dependencies M (Suc i) ts ?P1"
    using i by (simp add: Let_def key me)
  have keys1: "map fst ?al1 = map fst ?al"
    using me map_entry_keys [of "fst (?al ! i)" ?f ?al] by simp
  with Cons.prems(1) have d1: "distinct (map fst (p_steps ?P1))" by simp
  from Cons.prems(2) have l1: "Suc i + length ts \<le> length (p_steps ?P1)" by simp
  from Cons.IH [OF d1 l1]
  obtain P' where P': "set_up_dependencies M (Suc i) ts ?P1 = Inr P'"
    "length (p_steps P') = length ?al1"
    "\<forall>j < length ?al1. p_steps P' ! j =
        (if Suc i \<le> j \<and> j < Suc i + length ts
         then (fst (?al1 ! j),
               (snd (?al1 ! j))\<lparr> s_dependencies :=
                  resolve_dependencies M (st_dependencies (ts ! (j - Suc i))) \<rparr>)
         else ?al1 ! j)"
    by auto
  have "p_steps P' ! j =
          (if i \<le> j \<and> j < i + length (st # ts)
           then (fst (?al ! j),
                 (snd (?al ! j))\<lparr> s_dependencies :=
                    resolve_dependencies M (st_dependencies ((st # ts) ! (j - i))) \<rparr>)
           else ?al ! j)" if j: "j < length ?al" for j
  proof (cases "j = i")
    case True
    with P'(3) i show ?thesis by simp
  next
    case False
    then have a: "?al1 ! j = ?al ! j" by simp
    show ?thesis
    proof (cases "Suc i \<le> j")
      case True
      then have "(st # ts) ! (j - i) = ts ! (j - Suc i)"
        by (simp add: Suc_diff_le)
      with P'(3) j a True show ?thesis by simp
    next
      case False
      with \<open>j \<noteq> i\<close> have "j < i" by simp
      with P'(3) j a show ?thesis by simp
    qed
  qed
  with P'(1,2) step show ?case by simp
qed

lemma create_pipeline_closed_form:
  assumes "distinct (step_uuids uuid4 (length (t_steps self)))"
  shows "\<exists>p. fst (create_pipeline uuid4 clk self app_id version variables) = Inr p \<and>
           p_steps p = created_steps uuid4
             (merge_variables app_id version (local_variables variables)) (t_steps self)"
proof -
  let ?ts = "t_steps self"
  let ?n = "length ?ts"
  let ?vars = "merge_variables app_id version (local_variables variables)"
  let ?P0 = "Pipeline_init (uuid4 0) clk (t_name self) app_id version"
  obtain P1 M where inst: "instantiate_steps uuid4 clk ?vars 0 ?ts (?P0, []) = (P1, M)"
    by (cases "instantiate_steps uuid4 clk ?vars 0 ?ts (?P0, [])")
  have p0: "p_steps ?P0 = []" by (simp add: Pipeline_init_def)
  from assms have d0: "distinct (map (\<lambda>j. uuid4 (Suc j)) [0..<0 + ?n])"
    by (simp add: step_uuids_def)
  have "p_steps (fst (instantiate_steps uuid4 clk ?vars 0 ?ts (?P0, []))) =
          p_steps ?P0 @ new_steps uuid4 ?vars 0 ?ts"
    by (rule instantiate_steps_steps [OF d0]) (simp add: p0)
  with inst p0 have s1: "p_steps P1 = new_steps uuid4 ?vars 0 ?ts" by simp
  from instantiate_steps_map [of uuid4 clk ?vars 0 ?ts ?P0 "[]"] inst
  have m: "map_of M = step_id_of uuid4 ?ts"
    by (simp add: step_id_of_def step_uuids_def)
  have len1: "length (p_steps P1) = ?n" by (simp add: s1 new_steps_def)
  have nth1: "p_steps P1 ! j = (uuid4 (Suc j),
        PipelineStep_init (uuid4 (Suc j)) (st_name (?ts ! j)) (st_stage (?ts ! j))
          (substitute ?vars (st_command_template (?ts ! j))) [])" if "j < ?n" for j
    using that by (simp add: s1 new_steps_def)
  have "map fst (p_steps P1) = step_uuids uuid4 ?n"
    by (rule nth_equalityI) (simp_all add: len1 nth1 step_uuids_def)
  with assms have d1: "distinct (map fst (p_steps P1))" by simp
  from len1 have l1: "0 + ?n \<le> length (p_steps P1)" by simp
  from set_up_dependencies_nth [OF d1 l1, of M]
  obtain P' where P': "set_up_dependencies M 0 ?ts P1 = Inr P'"
    "length (p_steps P') = length (p_steps P1)"
    "\<forall>j < length (p_steps P1). p_steps P' ! j =
        (if 0 \<le> j \<and> j < 0 + ?n
         then (fst (p_steps P1 ! j),
               (snd (p_steps P1 ! j))\<lparr> s_dependencies :=
                  resolve_dependencies M (st_dependencies (?ts ! (j - 0))) \<rparr>)
         else p_steps P1 ! j)"
    by blast
  have "p_steps P' = created_steps uuid4 ?vars ?ts"
  proof (rule nth_equalityI)
    show "length (p_steps P') = length (created_steps uuid4 ?vars ?ts)"
      by (simp add: P'(2) len1 created_steps_def)
  next
    fix j assume "j < length (p_steps P')"
    with P'(2) len1 have j: "j < ?n" by simp
    with P'(3) len1 have "p_steps P' ! j = (fst (p_steps P1 ! j),
               (snd (p_steps P1 ! j))\<lparr> s_dependencies :=
                  resolve_dependencies M (st_dependencies (?ts ! j)) \<rparr>)" by simp
    with j show "p_steps P' ! j = created_steps uuid4 ?vars ?ts ! j"
      by (simp add: nth1 created_steps_def resolve_dependencies_def m PipelineStep_init_def)
  qed
  moreover have "fst (create_pipeline uuid4 clk self app_id version variables) = Inr P'"
    using inst P'(1) by (simp add: create_pipeline_def Let_def)
  ultimately show ?thesis by blast
qed

lemma update_values: "snd ` set (AList.update k v al) \<subseteq> insert v (snd ` set al)"
  by (induction al) auto

lemma update_entries: "set (AList.update k v al) \<subseteq> insert (k, v) (set al)"
  by (induction al) auto

lemma instantiate_steps_closed:
  assumes "snd ` set M \<subseteq> fst ` set (p_steps P)"
    and "\<forall>(k, s) \<in> set (p_steps P). s_dependencies s = []"
    and "instantiate_steps uuid4 clk vars i ts (P, M) = (P', M')"
  shows "snd ` set M' \<subseteq> fst ` set (p_steps P') \<and>
         (\<forall>(k, s) \<in> set (p_steps P'). s_dependencies s = [])"
  using assms
proof (induction ts arbitrary: i P M)
  case Nil
  then show ?case by simp
next
  case (Cons st ts)
  let ?step = "PipelineStep_init (uuid4 (Suc i)) (st_name st) (st_stage st)
                 (substitute vars (st_command_template st)) []"
  let ?P1 = "add_step (clk + Suc i) ?step P"
  let ?M1 = "AList.update (st_name st) (uuid4 (Suc i)) M"
  have sid: "s_id ?step = uuid4 (Suc i)" and dep: "s_dependencies ?step = []"
    by (simp_all add: PipelineStep_init_def)
  have steps1: "p_steps ?P1 = AList.update (uuid4 (Suc i)) ?step (p_steps P)"
    by (simp add: add_step_def sid)
  have keys1: "fst ` set (p_steps ?P1) = insert (uuid4 (Suc i)) (fst ` set (p_steps P))"
    unfolding steps1 by (simp add: AList.dom_update)
  from update_values [of "st_name st" "uuid4 (Suc i)" M] Cons.prems(1)
  have a: "snd ` set ?M1 \<subseteq> fst ` set (p_steps ?P1)" unfolding keys1 by blast
  have b: "\<forall>(k, s) \<in> set (p_steps ?P1). s_dependencies s = []"
  proof -
    have "s_dependencies s = []" if "(k, s) \<in> set (p_steps ?P1)" for k s
    proof -
      from that update_entries [of "uuid4 (Suc i)" ?step "p_steps P"]
      have "(k, s) = (uuid4 (Suc i), ?step) \<or> (k, s) \<in> set (p_steps P)"
        unfolding steps1 by blast
      with dep Cons.prems(2) show ?thesis by auto
    qed
    then show ?thesis by blast
  qed
  from Cons.prems(3)
  have "instantiate_steps uuid4 clk vars (Suc i) ts (?P1, ?M1) = (P', M')"
    by (simp add: Let_def sid)
  from Cons.IH [OF a b this] show ?case .
qed

lemma resolve_dependencies_subset:
  "set (resolve_dependencies M names) \<subseteq> snd ` set M"
proof
  fix x assume "x \<in> set (resolve_dependencies M names)"
  then obtain n where "map_of M n = Some x"
    by (auto simp: resolve_dependencies_def List.map_filter_def)
  then have "(n, x) \<in> set M" by (rule map_of_SomeD)
  then show "x \<in> snd ` set M" by force
qed

lemma set_up_dependencies_closed:
  assumes "set_up_dependencies M i ts P = Inr P'"
    and "snd ` set M \<subseteq> fst ` set (p_steps P)" and "closed P"
  shows "closed P'"
  using assms
proof (induction ts arbitrary: i P)
  case Nil
  then show ?case by simp
next
  case (Cons st ts)
  let ?k = "map fst (p_steps P) ! i"
  let ?f = "\<lambda>step. step\<lparr> s_dependencies := resolve_dependencies M (st_dependencies st) \<rparr>"
  let ?P1 = "P\<lparr> p_steps := AList.map_entry ?k ?f (p_steps P) \<rparr>"
  from Cons.prems(1) have i: "i < length (p_steps P)" by (simp split: if_splits)
  with Cons.prems(1) have step: "set_up_dependencies M (Suc i) ts ?P1 = Inr P'"
    by (simp add: Let_def)
  have keys1: "fst ` set (p_steps ?P1) = fst ` set (p_steps P)"
    by (simp add: AList.dom_map_entry)
  have "closed ?P1"
    unfolding closed_def keys1
  proof (intro ballI, clarify)
    fix k s d assume ks: "(k, s) \<in> set (p_steps ?P1)" and d: "d \<in> set (s_dependencies s)"
    from ks map_entry_set [of k s ?k ?f "p_steps P"]
    have "(k, s) \<in> set (p_steps P) \<or> (\<exists>v. s = ?f v)" by auto
    then show "d \<in> fst ` set (p_steps P)"
    proof
      assume "(k, s) \<in> set (p_steps P)"
      with Cons.prems(3) d show ?thesis by (auto simp: closed_def)
    next
      assume "\<exists>v. s = ?f v"
      with d have "d \<in> set (resolve_dependencies M (st_dependencies st))" by auto
      with resolve_dependencies_subset Cons.prems(2) show ?thesis by blast
    qed
  qed
  moreover from Cons.prems(2) keys1 have "snd ` set M \<subseteq> fst ` set (p_steps ?P1)" by simp
  ultimately show ?case using Cons.IH [OF step] by blast
qed

lemma create_pipeline_closed:
  assumes "fst (create_pipeline uuid4 clk self app_id version variables) = Inr p"
  shows "closed p"
proof -
  let ?vars = "merge_variables app_id version (local_variables variables)"
  let ?P0 = "Pipeline_init (uuid4 0) clk (t_name self) app_id version"
  obtain P1 M where inst: "instantiate_steps uuid4 clk ?vars 0 (t_steps self) (?P0, []) = (P1, M)"
    by (cases "instantiate_steps uuid4 clk ?vars 0 (t_steps self) (?P0, [])")
  have p0: "p_steps ?P0 = []" by (simp add: Pipeline_init_def)
  have "snd ` set M \<subseteq> fst ` set (p_steps P1) \<and>
        (\<forall>(k, s) \<in> set (p_steps P1). s_dependencies s = [])"
    by (rule instantiate_steps_closed [OF _ _ inst]) (simp_all add: p0)
  then have m: "snd ` set M \<subseteq> fst ` set (p_steps P1)" and c: "closed P1"
    by (auto simp: closed_def)
  from assms inst have "set_up_dependencies M 0 (t_steps self) P1 = Inr p"
    by (simp add: create_pipeline_def Let_def)
  from set_up_dependencies_closed [OF this m c] show ?thesis .
qed


lemmas create_defs = create_pipeline_def merge_variables_def local_variables_def
  caller_variables_after_def Pipeline_init_def PipelineStep_init_def add_step_def
  add_step_template_def substitute_def placeholder_def resolve_dependencies_def commands_def

subsection \<open>Substitution of variables\<close>

text \<open>
  Claim C6, as stated, fails: the variables are replaced one after the other, in the order of
  the dictionary, so a value that was just inserted is rewritten by a later variable. With
  \<open>ENV\<close> bound to the text \<open>${VERSION}\<close>, the template \<open>run ${ENV}\<close> does not yield
  \<open>run ${VERSION}\<close>, the template with its placeholder replaced by the bound value, but
  \<open>run 2.0\<close>.
\<close>

theorem sequential_substitution_counterexample:
  "render [Text ''run '', Var ''ENV''] = ''run ${ENV}'' \<and>
   expand (map_of [(''ENV'', ''${VERSION}''), (''APP_ID'', ''app-1''), (''VERSION'', ''2.0'')])
     [Text ''run '', Var ''ENV''] = ''run ${VERSION}'' \<and>
   commands (fst (create_pipeline example_uuid4 0 chain_template ''app-1'' ''2.0''
                    (Some [(''ENV'', ''${VERSION}'')]))) = Some [''run 2.0'']"
  by (simp add: render_def expand_def chain_template_def example_uuid4_def create_defs)

lemma created_steps_length [simp]: "length (created_steps uuid4 vars ts) = length ts"
  by (simp add: created_steps_def)

lemma created_steps_nth:
  assumes "j < length ts"
  shows "created_steps uuid4 vars ts ! j =
           (uuid4 (Suc j),
            PipelineStep_init (uuid4 (Suc j)) (st_name (ts ! j)) (st_stage (ts ! j))
              (substitute vars (st_command_template (ts ! j)))
              (List.map_filter (step_id_of uuid4 ts) (st_dependencies (ts ! j))))"
  using assms by (simp add: created_steps_def)

lemma merge_variables_entries:
  "set (merge_variables app_id version d) \<subseteq>
     insert (''VERSION'', version) (insert (''APP_ID'', app_id) (set d))"
  unfolding merge_variables_def
  using update_entries [of "''VERSION''" version "AList.update ''APP_ID'' app_id d"]
    update_entries [of "''APP_ID''" app_id d]
  by blast

text \<open>
  Claim C6, amended. When the ids drawn are distinct, the command template of a step is made of
  literal text without \<open>$\<close> and of placeholders \<open>${NAME}\<close> (names without \<open>$\<close> and
  \<open>}\<close>), no bound name contains \<open>}\<close> and no bound value, \<open>app_id\<close> and \<open>version\<close>
  included, contains \<open>$\<close>, the command of the step is the template with every placeholder
  of a bound name replaced by the bound value (\<open>APP_ID\<close> and \<open>VERSION\<close> bound to the
  instantiation arguments) and every other placeholder left verbatim. The witness is the
  example of the claim: \<open>deploy ${APP_ID} ${VERSION} ${ENV}\<close> yields
  \<open>deploy app-1 2.0 staging\<close>.
\<close>

theorem substitution_in_commands:
  assumes uuids: "distinct (step_uuids uuid4 (length (t_steps self)))"
    and j: "j < length (t_steps self)"
    and template: "st_command_template (t_steps self ! j) = render ps"
    and pieces: "list_all unambiguous ps"
    and bound: "\<forall>(k, v) \<in> set (local_variables variables).
                  CHR ''}'' \<notin> set k \<and> CHR ''$'' \<notin> set v"
    and app_id: "CHR ''$'' \<notin> set app_id" and version: "CHR ''$'' \<notin> set version"
  shows "\<exists>cs. commands (fst (create_pipeline uuid4 clk self app_id version variables)) = Some cs \<and>
           length cs = length (t_steps self) \<and>
           cs ! j = expand ((map_of (local_variables variables))
                              (''APP_ID'' \<mapsto> app_id, ''VERSION'' \<mapsto> version)) ps"
proof -
  let ?vars = "merge_variables app_id version (local_variables variables)"
  from create_pipeline_closed_form [OF uuids, of clk app_id version variables]
  obtain p where p: "fst (create_pipeline uuid4 clk self app_id version variables) = Inr p"
    "p_steps p = created_steps uuid4 ?vars (t_steps self)" by blast
  let ?cs = "map (\<lambda>(k, s). s_command s) (p_steps p)"
  have c: "commands (fst (create_pipeline uuid4 clk self app_id version variables)) = Some ?cs"
    by (simp add: commands_def p(1))
  have l: "length ?cs = length (t_steps self)" by (simp add: p(2))
  have ok: "\<forall>(k, v) \<in> set ?vars. CHR ''}'' \<notin> set k \<and> CHR ''$'' \<notin> set v"
  proof -
    have "CHR ''}'' \<notin> set k \<and> CHR ''$'' \<notin> set v" if "(k, v) \<in> set ?vars" for k v
    proof -
      from that merge_variables_entries [of app_id version "local_variables variables"]
      have "(k, v) = (''VERSION'', version) \<or> (k, v) = (''APP_ID'', app_id) \<or>
            (k, v) \<in> set (local_variables variables)" by blast
      with bound app_id version show ?thesis by auto
    qed
    then show ?thesis by blast
  qed
  have "?cs ! j = substitute ?vars (st_command_template (t_steps self ! j))"
    using j by (simp add: p(2) created_steps_nth PipelineStep_init_def)
  also have "\<dots> = expand (map_of ?vars) ps"
    unfolding template by (rule substitute_render [OF pieces ok])
  also have "map_of ?vars = (map_of (local_variables variables))
                              (''APP_ID'' \<mapsto> app_id, ''VERSION'' \<mapsto> version)"
    by (simp add: merge_variables_def AList.update_conv')
  finally show ?thesis using c l by blast
qed

theorem substitution_in_commands_witness:
  "commands (fst (create_pipeline example_uuid4 0 example_template ''app-1'' ''2.0''
                    (Some [(''ENV'', ''staging'')]))) = Some [''deploy app-1 2.0 staging'']"
proof -
  let ?ps = "[Text ''deploy '', Var ''APP_ID'', Text '' '', Var ''VERSION'', Text '' '', Var ''ENV'']"
  have ts: "t_steps example_template =
      [\<lparr> st_name = ''Deploy'', st_stage = DEPLOY,
         st_command_template = ''deploy ${APP_ID} ${VERSION} ${ENV}'', st_dependencies = [] \<rparr>]"
    by (simp add: example_template_def add_step_template_def)
  have u: "distinct (step_uuids example_uuid4 (length (t_steps example_template)))"
    by (simp add: ts step_uuids_def)
  have j: "0 < length (t_steps example_template)" by (simp add: ts)
  have t: "st_command_template (t_steps example_template ! 0) = render ?ps"
    by (simp add: ts render_def placeholder_def)
  have w: "list_all unambiguous ?ps" by simp
  have b: "\<forall>(k, v) \<in> set (local_variables (Some [(''ENV'', ''staging'')])).
             CHR ''}'' \<notin> set k \<and> CHR ''$'' \<notin> set v"
    by (simp add: local_variables_def)
  have a: "CHR ''$'' \<notin> set ''app-1''" and v: "CHR ''$'' \<notin> set ''2.0''" by simp_all
  from substitution_in_commands [OF u j t w b a v, of 0]
  obtain cs where cs: "commands (fst (create_pipeline example_uuid4 0 example_template ''app-1''
      ''2.0'' (Some [(''ENV'', ''staging'')]))) = Some cs" "length cs = 1"
    "cs ! 0 = ''deploy app-1 2.0 staging''"
    by (auto simp: ts expand_def local_variables_def)
  from cs(2,3) have "cs = [''deploy app-1 2.0 staging'']"
    by (cases cs) simp_all
  with cs(1) show ?thesis by simp
qed

subsection \<open>The implicit bindings\<close>








subsection \<open>The caller's dictionary\<close>

text \<open>
  Claim C9, as stated, fails for an empty dictionary: \<open>variables or {}\<close> then makes a new
  dictionary, and the caller's stays empty.
\<close>

theorem empty_dictionary_counterexample:
  "snd (create_pipeline example_uuid4 0 example_template ''app-1'' ''2.0'' (Some [])) = Some []"
  by (simp add: create_defs case_prod_unfold Let_def)

text \<open>
  Claim C9, amended. \<open>create_pipeline\<close> changes a caller-supplied dictionary in place when it
  is not empty: after the call that object binds \<open>APP_ID\<close> and \<open>VERSION\<close> to the
  instantiation arguments, over any value the caller had stored, and its other bindings are
  unchanged. An empty dictionary is left empty, and with \<open>None\<close> there is no object to change.
\<close>

theorem caller_dictionary_updated:
  assumes "d \<noteq> []"
  shows "snd (create_pipeline uuid4 clk self app_id version (Some d)) =
           Some (merge_variables app_id version d) \<and>
         map_of (merge_variables app_id version d) =
           (map_of d)(''APP_ID'' \<mapsto> app_id, ''VERSION'' \<mapsto> version) \<and>
         snd (create_pipeline uuid4 clk self app_id version (Some [])) = Some [] \<and>
         snd (create_pipeline uuid4 clk self app_id version None) = None"
  using assms
  by (simp add: create_pipeline_def caller_variables_after_def merge_variables_def
      AList.update_conv' case_prod_unfold Let_def)

theorem caller_dictionary_updated_witness:
  "[(''ENV'', ''staging''), (''APP_ID'', ''old'')] \<noteq> [] \<and>
   snd (create_pipeline example_uuid4 0 example_template ''app-1'' ''2.0''
          (Some [(''ENV'', ''staging''), (''APP_ID'', ''old'')])) =
     Some [(''ENV'', ''staging''), (''APP_ID'', ''app-1''), (''VERSION'', ''2.0'')]"
proof -
  have ne: "[(''ENV'', ''staging''), (''APP_ID'', ''old'')] \<noteq> ([] :: (string \<times> string) list)"
    by simp
  from caller_dictionary_updated [OF ne, of example_uuid4 0 example_template "''app-1''" "''2.0''"]
  show ?thesis by (simp add: merge_variables_def)
qed

subsection \<open>Resolved dependencies\<close>

lemma step_id_of_unknown:
  assumes "name \<notin> st_name ` set ts"
  shows "step_id_of uuid4 ts name = None"
proof -
  have "name \<notin> fst ` set (zip (map st_name ts) (step_uuids uuid4 (length ts)))"
  proof
    assume "name \<in> fst ` set (zip (map st_name ts) (step_uuids uuid4 (length ts)))"
    then obtain u where "(name, u) \<in> set (zip (map st_name ts) (step_uuids uuid4 (length ts)))"
      by force
    then have "name \<in> set (map st_name ts)" by (rule set_zip_leftD)
    with assms show False by simp
  qed
  then show ?thesis by (simp add: step_id_of_def map_of_eq_None_iff)
qed

text \<open>
  Claim C8. In every pipeline that \<open>create_pipeline\<close> returns, every id in a step's
  dependencies is a key of the pipeline's steps. When the ids drawn are distinct the call
  returns (it does not raise), and the dependencies of each step are the ids of the steps
  named in its template's \<open>dependencies\<close>, in order, a name that no step of the template
  bears being left out: \<open>step_id_of\<close> is \<open>None\<close> on such a name and \<open>List.map_filter\<close>
  drops it.
\<close>

theorem created_dependencies_resolved:
  "(\<forall>p. fst (create_pipeline uuid4 clk self app_id version variables) = Inr p \<longrightarrow>
        (\<forall>(k, s) \<in> set (p_steps p). set (s_dependencies s) \<subseteq> fst ` set (p_steps p))) \<and>
   (distinct (step_uuids uuid4 (length (t_steps self))) \<longrightarrow>
      (\<exists>p. fst (create_pipeline uuid4 clk self app_id version variables) = Inr p \<and>
           map (\<lambda>(k, s). s_dependencies s) (p_steps p) =
             map (\<lambda>st. List.map_filter (step_id_of uuid4 (t_steps self)) (st_dependencies st))
               (t_steps self))) \<and>
   (\<forall>name. name \<notin> st_name ` set (t_steps self) \<longrightarrow>
        step_id_of uuid4 (t_steps self) name = None)"
proof (intro conjI allI impI)
  fix p assume "fst (create_pipeline uuid4 clk self app_id version variables) = Inr p"
  then have "closed p" by (rule create_pipeline_closed)
  then show "\<forall>(k, s) \<in> set (p_steps p). set (s_dependencies s) \<subseteq> fst ` set (p_steps p)"
    by (simp add: closed_def)
next
  assume "distinct (step_uuids uuid4 (length (t_steps self)))"
  from create_pipeline_closed_form [OF this, of clk app_id version variables]
  obtain p where p: "fst (create_pipeline uuid4 clk self app_id version variables) = Inr p"
    "p_steps p = created_steps uuid4
       (merge_variables app_id version (local_variables variables)) (t_steps self)" by blast
  have "map (\<lambda>(k, s). s_dependencies s) (p_steps p) =
          map (\<lambda>st. List.map_filter (step_id_of uuid4 (t_steps self)) (st_dependencies st))
            (t_steps self)"
    by (rule nth_equalityI) (simp_all add: p(2) created_steps_nth PipelineStep_init_def)
  with p(1) show "\<exists>p. fst (create_pipeline uuid4 clk self app_id version variables) = Inr p \<and>
           map (\<lambda>(k, s). s_dependencies s) (p_steps p) =
             map (\<lambda>st. List.map_filter (step_id_of uuid4 (t_steps self)) (st_dependencies st))
               (t_steps self)" by blast
next
  fix name assume "name \<notin> st_name ` set (t_steps self)"
  then show "step_id_of uuid4 (t_steps self) name = None" by (rule step_id_of_unknown)
qed

theorem created_dependencies_resolved_witness:
  "distinct (step_uuids example_uuid4 (length (t_steps dangling_template))) \<and>
   ''Y'' \<notin> st_name ` set (t_steps dangling_template) \<and>
   step_id_of example_uuid4 (t_steps dangling_template) ''Y'' = None \<and>
   (\<exists>p. fst (create_pipeline example_uuid4 0 dangling_template ''app-1'' ''2.0'' None) = Inr p \<and>
        map (\<lambda>(k, s). s_dependencies s) (p_steps p) = [[''uuid-2''], []] \<and>
        list_all (\<lambda>(k, s). list_all (\<lambda>d. d \<in> set (map fst (p_steps p))) (s_dependencies s))
          (p_steps p))"
proof -
  have ts: "t_steps dangling_template =
      [\<lparr> st_name = ''X'', st_stage = BUILD, st_command_template = ''run X'',
         st_dependencies = [''Y'', ''Z''] \<rparr>,
       \<lparr> st_name = ''Z'', st_stage = TEST, st_command_template = ''run Z'',
         st_dependencies = [] \<rparr>]"
    by (simp add: dangling_template_def add_step_template_def)
  have ids: "step_uuids example_uuid4 (length (t_steps dangling_template)) = [''uuid-1'', ''uuid-2'']"
    by (simp add: ts step_uuids_def example_uuid4_def upt_rec)
  have u: "distinct (step_uuids example_uuid4 (length (t_steps dangling_template)))"
    by (simp add: ids)
  have y: "''Y'' \<notin> st_name ` set (t_steps dangling_template)" by (simp add: ts)
  note res = created_dependencies_resolved
    [of example_uuid4 0 dangling_template "''app-1''" "''2.0''" None]
  from res y have none: "step_id_of example_uuid4 (t_steps dangling_template) ''Y'' = None"
    by blast
  have z: "step_id_of example_uuid4 (t_steps dangling_template) ''Z'' = Some ''uuid-2''"
    by (simp add: step_id_of_def ids) (simp add: ts)
  from res u obtain p
    where p: "fst (create_pipeline example_uuid4 0 dangling_template ''app-1'' ''2.0'' None) = Inr p"
      "map (\<lambda>(k, s). s_dependencies s) (p_steps p) =
         map (\<lambda>st. List.map_filter (step_id_of example_uuid4 (t_steps dangling_template))
                (st_dependencies st)) (t_steps dangling_template)"
    by blast
  from p(2) have deps: "map (\<lambda>(k, s). s_dependencies s) (p_steps p) = [[''uuid-2''], []]"
    by (simp add: ts none [unfolded ts] z [unfolded ts])
  from res p(1)
  have "\<forall>(k, s) \<in> set (p_steps p). set (s_dependencies s) \<subseteq> fst ` set (p_steps p)" by blast
  then have "list_all (\<lambda>(k, s). list_all (\<lambda>d. d \<in> set (map fst (p_steps p))) (s_dependencies s))
          (p_steps p)"
    by (auto simp: list_all_iff)
  with u y none p(1) deps show ?thesis
    by - (intro conjI exI [where x = p], assumption+)
qed

end
